theory Spec2Isabelle
  imports Complex_Main
begin

section \<open>Data model of \<open>flowchart_from_image.py\<close>\<close>

text \<open>
  Box coordinates are Python ints (the source converts every detector coordinate with
  \<open>int\<close>); midpoints and distances are Python floats.  Floats are idealised as reals: a
  midpoint \<open>(a + b) / 2\<close> of two ints is exact in either reading, and \<open>math.hypot\<close> is the
  Euclidean norm.  Identifiers and counters are Python ints, hence \<open>int\<close>.
\<close>

type_synonym point = "real \<times> real"

text \<open>A detector box after the \<open>int\<close> conversion: \<open>(class_id, x1, y1, x2, y2)\<close>.\<close>

type_synonym box = "int \<times> int \<times> int \<times> int \<times> int"

text \<open>
  A shape tuple \<open>(shape_id, class_id, x1, y1, width, height, cx, cy, edge_centers)\<close>; the tenth
  component of the source, the handle of the drawn Word shape, plays no part in the graph.
  \<open>edge_centers\<close> is a dict with its keys in insertion order.
\<close>

type_synonym shape =
  "int \<times> int \<times> int \<times> int \<times> int \<times> int \<times> real \<times> real \<times> (string \<times> point) list"

text \<open>
  A connection node: the dict with keys \<open>id\<close>, \<open>point\<close>, \<open>type\<close>, \<open>shape_id\<close>, \<open>side\<close>
  (a field is named by the dict and its key).
\<close>

record conn =
  conn_id :: int
  conn_point :: point
  conn_type :: string
  conn_shape_id :: "int option"
  conn_side :: "string option"

text \<open>An arrow connection: the dict appended by \<open>process_arrow_detections\<close>.\<close>

record arrow_connection =
  arrow_class_id :: int
  arrow_bbox :: "int list"
  arrow_tail_candidate :: "real list"
  arrow_tip_candidate :: "real list"
  arrow_tail :: conn
  arrow_tip :: conn

type_synonym edge = "int option \<times> int option"

datatype py_error = IndexError | TypeError

definition SHAPE_MAP :: "int \<Rightarrow> int option option" where
  "SHAPE_MAP k =
     (if k = 4 then Some (Some 4) else if k = 5 then Some None else if k = 6 then Some (Some 67)
      else if k = 7 then Some (Some 1) else if k = 8 then Some (Some 2)
      else if k = 9 then Some (Some 9) else None)"

definition SHAPE_NAME_MAP :: "(int \<times> string option) list" where
  "SHAPE_NAME_MAP =
     [(4, Some ''Decision''), (5, None), (6, Some ''Output''), (7, Some ''Process''),
      (8, Some ''Scan (input)''), (9, Some ''Start/End'')]"

section \<open>The global connection-node counter\<close>

text \<open>
  \<open>connection_id_counter\<close> is a module-level variable; every function that draws an id takes
  the counter and returns it updated.
\<close>

definition get_next_connection_id :: "int \<Rightarrow> int \<times> int" where
  "get_next_connection_id connection_id_counter = (connection_id_counter, connection_id_counter + 1)"

section \<open>Shapes and the connection pool\<close>

text \<open>
  The body of the inner loop of \<open>draw_shapes\<close>: \<open>SHAPE_MAP.get(class_id, None)\<close> is \<open>None\<close> both
  for a missing key and for the key 5.
\<close>

fun draw_shapes_box :: "box \<Rightarrow> shape list \<Rightarrow> shape list" where
  "draw_shapes_box (class_id, x1, y1, x2, y2) shape_positions =
     (let width = x2 - x1; height = y2 - y1 in
      if class_id \<notin> {0, 1, 2, 3} \<and> class_id \<noteq> 5 then
        (case (case SHAPE_MAP class_id of None \<Rightarrow> None | Some v \<Rightarrow> v) of
           None \<Rightarrow> shape_positions
         | Some shape_type \<Rightarrow>
             (let cx = real_of_int x1 + real_of_int width / 2;
                  cy = real_of_int y1 + real_of_int height / 2;
                  edge_centers =
                    [(''top'', (cx, real_of_int y1)),
                     (''bottom'', (cx, real_of_int (y1 + height))),
                     (''left'', (real_of_int x1, cy)),
                     (''right'', (real_of_int (x1 + width), cy))];
                  shape_id = int (length shape_positions)
              in shape_positions @
                 [(shape_id, class_id, x1, y1, width, height, cx, cy, edge_centers)]))
      else shape_positions)"

definition draw_shapes :: "box list list \<Rightarrow> shape list" where
  "draw_shapes results = fold (\<lambda>result sp. fold draw_shapes_box result sp) results []"

fun build_connections_sides ::
  "int \<Rightarrow> (string \<times> point) list \<Rightarrow> conn list \<times> int \<Rightarrow> conn list \<times> int" where
  "build_connections_sides shape_id [] (connections_pool, counter) = (connections_pool, counter)"
| "build_connections_sides shape_id ((side, pt) # rest) (connections_pool, counter) =
     (let (cid, counter') = get_next_connection_id counter;
          c = \<lparr>conn_id = cid, conn_point = pt, conn_type = ''shape'',
               conn_shape_id = Some shape_id, conn_side = Some side\<rparr>
      in build_connections_sides shape_id rest (connections_pool @ [c], counter'))"

fun build_connections_shapes :: "shape list \<Rightarrow> conn list \<times> int \<Rightarrow> conn list \<times> int" where
  "build_connections_shapes [] st = st"
| "build_connections_shapes
     ((shape_id, class_id, x1, y1, width, height, cx, cy, edge_centers) # rest) st =
     build_connections_shapes rest (build_connections_sides shape_id edge_centers st)"

definition build_connections_pool :: "shape list \<Rightarrow> int \<Rightarrow> conn list \<times> int" where
  "build_connections_pool shape_positions counter =
     build_connections_shapes shape_positions ([], counter)"

section \<open>Snapping a candidate point to the pool\<close>

definition hypot :: "real \<Rightarrow> real \<Rightarrow> real" where
  "hypot a b = sqrt (a\<^sup>2 + b\<^sup>2)"

text \<open>The scan of \<open>find_nearest_connection\<close>, carrying \<open>best\<close> and \<open>best_dist\<close>.\<close>

fun nearest_scan :: "point \<Rightarrow> conn list \<Rightarrow> conn option \<times> real \<Rightarrow> conn option \<times> real" where
  "nearest_scan candidate [] acc = acc"
| "nearest_scan candidate (c # rest) (best, best_dist) =
     (let d = hypot (fst candidate - fst (conn_point c)) (snd candidate - snd (conn_point c)) in
      if d < best_dist then nearest_scan candidate rest (Some c, d)
      else nearest_scan candidate rest (best, best_dist))"

text \<open>
  The pool is a list mutated in place and the counter is global: both are threaded.  The
  result is \<open>(best, pool, counter)\<close>.
\<close>

definition find_nearest_connection ::
  "point \<Rightarrow> conn list \<Rightarrow> real \<Rightarrow> int \<Rightarrow> conn \<times> conn list \<times> int" where
  "find_nearest_connection candidate pool threshold counter =
     (case fst (nearest_scan candidate pool (None, threshold)) of
        Some best \<Rightarrow> (best, pool, counter)
      | None \<Rightarrow>
          (let (cid, counter') = get_next_connection_id counter;
               best = \<lparr>conn_id = cid, conn_point = candidate, conn_type = ''arrow'',
                       conn_shape_id = None, conn_side = None\<rparr>
           in (best, pool @ [best], counter')))"

section \<open>Arrow detections\<close>

text \<open>The first loop of \<open>process_arrow_detections\<close> keeps the boxes of class 0, 1, 2 or 3.\<close>

definition arrow_detections_of :: "box list list \<Rightarrow> box list" where
  "arrow_detections_of results =
     concat (map (filter (\<lambda>(class_id, x1, y1, x2, y2). class_id \<in> {0, 1, 2, 3})) results)"

text \<open>The \<open>if\<close>/\<open>elif\<close> chain on the class id; \<open>None\<close> is its final \<open>continue\<close>.\<close>

definition arrow_candidates :: "box \<Rightarrow> (point \<times> point) option" where
  "arrow_candidates arrow =
     (case arrow of (class_id, ax1, ay1, ax2, ay2) \<Rightarrow>
        if class_id = 0 then
          Some ((real_of_int (ax1 + ax2) / 2, real_of_int ay1),
                (real_of_int (ax1 + ax2) / 2, real_of_int ay2))
        else if class_id = 3 then
          Some ((real_of_int (ax1 + ax2) / 2, real_of_int ay2),
                (real_of_int (ax1 + ax2) / 2, real_of_int ay1))
        else if class_id = 1 then
          Some ((real_of_int ax2, real_of_int (ay1 + ay2) / 2),
                (real_of_int ax1, real_of_int (ay1 + ay2) / 2))
        else if class_id = 2 then
          Some ((real_of_int ax1, real_of_int (ay1 + ay2) / 2),
                (real_of_int ax2, real_of_int (ay1 + ay2) / 2))
        else None)"

text \<open>
  The second loop, with state \<open>(arrow_connections, connections_pool, counter)\<close>.  Drawing the
  line in the Word document has no effect on the three.
\<close>

fun process_arrows ::
  "box list \<Rightarrow> arrow_connection list \<times> conn list \<times> int \<Rightarrow>
   arrow_connection list \<times> conn list \<times> int" where
  "process_arrows [] st = st"
| "process_arrows (arrow # rest) (arrow_connections, connections_pool, counter) =
     (case arrow_candidates arrow of
        None \<Rightarrow> process_arrows rest (arrow_connections, connections_pool, counter)
      | Some (tail_cand, tip_cand) \<Rightarrow>
          (let (tail_conn, pool1, counter1) =
                 find_nearest_connection tail_cand connections_pool 50 counter;
               (tip_conn, pool2, counter2) =
                 find_nearest_connection tip_cand pool1 50 counter1;
               (class_id, ax1, ay1, ax2, ay2) = arrow
           in process_arrows rest
                (arrow_connections @
                   [\<lparr>arrow_class_id = class_id, arrow_bbox = [ax1, ay1, ax2, ay2],
                     arrow_tail_candidate = [fst tail_cand, snd tail_cand],
                     arrow_tip_candidate = [fst tip_cand, snd tip_cand],
                     arrow_tail = tail_conn, arrow_tip = tip_conn\<rparr>],
                 pool2, counter2)))"

definition process_arrow_detections ::
  "box list list \<Rightarrow> conn list \<Rightarrow> int \<Rightarrow> arrow_connection list \<times> conn list \<times> int" where
  "process_arrow_detections results connections_pool counter =
     process_arrows (arrow_detections_of results) ([], connections_pool, counter)"

section \<open>Collapsing arrow chains\<close>

fun get_node_by_id :: "int \<Rightarrow> conn list \<Rightarrow> conn option" where
  "get_node_by_id node_id [] = None"
| "get_node_by_id node_id (c # pool) =
     (if conn_id c = node_id then Some c else get_node_by_id node_id pool)"

text \<open>
  \<open>graph\<close> is a \<open>defaultdict(list)\<close>: a function from node ids to neighbour lists that is
  \<open>[]\<close> at a key never written.
\<close>

type_synonym graph = "int \<Rightarrow> int list"

fun build_graph :: "arrow_connection list \<Rightarrow> graph \<Rightarrow> graph" where
  "build_graph [] graph = graph"
| "build_graph (arrow # rest) graph =
     build_graph rest
       (graph (conn_id (arrow_tail arrow) :=
                 graph (conn_id (arrow_tail arrow)) @ [conn_id (arrow_tip arrow)]))"

text \<open>
  A Python set is modelled by the list of its elements without repetition, in the order of
  their first insertion; \<open>set_add\<close> is \<open>s.add(x)\<close>.
\<close>

definition set_add :: "'a \<Rightarrow> 'a list \<Rightarrow> 'a list" where
  "set_add x s = (if x \<in> set s then s else s @ [x])"

text \<open>
  The state of the traversal is \<open>(visited, queue, final_edges)\<close>.  \<open>bfs_body\<close> is one iteration
  of the \<open>while queue\<close> loop, entered with a non-empty queue; the inner \<open>for\<close> loop appends
  the neighbours that are not in \<open>visited\<close>, which it does not change.
\<close>

type_synonym bfs_state = "int list \<times> int list \<times> edge list"

fun bfs_body :: "graph \<Rightarrow> conn list \<Rightarrow> int \<Rightarrow> int option \<Rightarrow> bfs_state \<Rightarrow> bfs_state" where
  "bfs_body graph pool start_id start_shape (visited, [], final_edges) =
     (visited, [], final_edges)"
| "bfs_body graph pool start_id start_shape (visited, current_id # queue, final_edges) =
     (if current_id \<in> set visited then (visited, queue, final_edges)
      else
        (let visited' = set_add current_id visited;
             final_edges' =
               (if current_id \<noteq> start_id then
                  (case get_node_by_id current_id pool of
                     Some node \<Rightarrow>
                       if conn_type node = ''shape''
                       then set_add (start_shape, conn_shape_id node) final_edges
                       else final_edges
                   | None \<Rightarrow> final_edges)
                else final_edges)
         in (visited', queue @ filter (\<lambda>neighbor. neighbor \<notin> set visited') (graph current_id),
             final_edges')))"

text \<open>The \<open>while\<close> loop; \<open>None\<close> is a loop that never exits.\<close>

partial_function (option) bfs_while ::
  "graph \<Rightarrow> conn list \<Rightarrow> int \<Rightarrow> int option \<Rightarrow> bfs_state \<Rightarrow> bfs_state option" where
  "bfs_while graph pool start_id start_shape st =
     (if fst (snd st) = [] then Some st
      else bfs_while graph pool start_id start_shape (bfs_body graph pool start_id start_shape st))"

text \<open>The \<open>for conn in connections_pool\<close> loop, carrying \<open>final_edges\<close>.\<close>

fun collapse_seeds :: "graph \<Rightarrow> conn list \<Rightarrow> conn list \<Rightarrow> edge list \<Rightarrow> edge list option" where
  "collapse_seeds graph pool [] final_edges = Some final_edges"
| "collapse_seeds graph pool (c # rest) final_edges =
     (if conn_type c = ''shape'' then
        (case bfs_while graph pool (conn_id c) (conn_shape_id c) ([], [conn_id c], final_edges) of
           None \<Rightarrow> None
         | Some st \<Rightarrow> collapse_seeds graph pool rest (snd (snd st)))
      else collapse_seeds graph pool rest final_edges)"

definition collapse_arrow_chains :: "conn list \<Rightarrow> arrow_connection list \<Rightarrow> edge list option" where
  "collapse_arrow_chains connections_pool arrow_connections =
     map_option (filter (\<lambda>edge. fst edge \<noteq> snd edge))
       (collapse_seeds (build_graph arrow_connections (\<lambda>k. [])) connections_pool
          connections_pool [])"

section \<open>The two documents\<close>

record chart_node =
  node_id :: int
  node_class_id :: int
  node_name :: "string option"
  node_bbox :: "int list"
  node_center :: "real list"
  node_edge_centers :: "(string \<times> real list) list"
  node_ocr_text :: string

record chart_json =
  chart_nodes :: "chart_node list"
  chart_edges :: "edge list"
  chart_SHAPE_MAP :: "(string \<times> string option) list"
  chart_arrows :: "arrow_connection list"

text \<open>
  \<open>chart_json['edges']\<close> holds one \<open>{'from': edge[0], 'to': edge[1]}\<close> per final edge, and
  \<open>chart_json['arrows']\<close> one dict per arrow connection with the same keys and values (the
  points as lists); both are kept as the pairs and records they are copied from.
  \<open>ocr_dict\<close> comes from the OCR service and is a parameter.
\<close>

definition name_of_class :: "int \<Rightarrow> string option" where
  "name_of_class k = (case map_of SHAPE_NAME_MAP k of None \<Rightarrow> None | Some v \<Rightarrow> v)"

fun chart_node_of :: "(int \<rightharpoonup> string) \<Rightarrow> shape \<Rightarrow> chart_node" where
  "chart_node_of ocr_dict (shape_id, class_id, x1, y1, width, height, cx, cy, edge_centers) =
     \<lparr>node_id = shape_id, node_class_id = class_id, node_name = name_of_class class_id,
      node_bbox = [x1, y1, width, height], node_center = [cx, cy],
      node_edge_centers = map (\<lambda>(k, v). (k, [fst v, snd v])) edge_centers,
      node_ocr_text = (case ocr_dict shape_id of None \<Rightarrow> [] | Some t \<Rightarrow> t)\<rparr>"

definition build_chart_json ::
  "shape list \<Rightarrow> edge list \<Rightarrow> arrow_connection list \<Rightarrow> (int \<rightharpoonup> string) \<Rightarrow> chart_json" where
  "build_chart_json shape_positions final_edges arrow_connections ocr_dict =
     \<lparr>chart_nodes = map (chart_node_of ocr_dict) shape_positions,
      chart_edges = final_edges,
      chart_SHAPE_MAP =
        [(''4'', Some ''Decision''), (''5'', None), (''6'', Some ''Output''),
         (''7'', Some ''Process''), (''8'', Some ''Scan (input)''), (''9'', Some ''Start/End'')],
      chart_arrows = arrow_connections\<rparr>"

record shape_mapping_entry =
  mapping_id :: int
  mapping_class_id :: int
  mapping_name :: "string option"
  mapping_bbox :: "int list"
  mapping_center :: "real list"

text \<open>\<open>str\<close> of a Python int, for the default name \<open>f"Class {class_id}"\<close>.\<close>

fun str_nat :: "nat \<Rightarrow> string" where
  "str_nat n = (if n < 10 then [char_of (48 + n)] else str_nat (n div 10) @ [char_of (48 + n mod 10)])"

declare str_nat.simps [simp del]

definition str_int :: "int \<Rightarrow> string" where
  "str_int i = (if i < 0 then CHR ''-'' # str_nat (nat (- i)) else str_nat (nat i))"

definition mapping_name_of_class :: "int \<Rightarrow> string option" where
  "mapping_name_of_class k =
     (case map_of SHAPE_NAME_MAP k of None \<Rightarrow> Some (''Class '' @ str_int k) | Some v \<Rightarrow> v)"

fun shape_mapping_of :: "shape \<Rightarrow> shape_mapping_entry" where
  "shape_mapping_of (shape_id, class_id, x1, y1, width, height, cx, cy, edge_centers) =
     \<lparr>mapping_id = shape_id, mapping_class_id = class_id,
      mapping_name = mapping_name_of_class class_id,
      mapping_bbox = [x1, y1, width, height], mapping_center = [cx, cy]\<rparr>"

text \<open>
  Indexing a list of length \<open>n\<close> with a Python value: \<open>None\<close> raises TypeError, an int below
  \<open>- n\<close> or from \<open>n\<close> on raises IndexError, a negative int counts from the end.
\<close>

definition py_index :: "nat \<Rightarrow> int option \<Rightarrow> py_error + nat" where
  "py_index n v =
     (case v of
        None \<Rightarrow> Inl TypeError
      | Some i \<Rightarrow>
          if 0 \<le> i \<and> i < int n then Inr (nat i)
          else if - int n \<le> i \<and> i < 0 then Inr (nat (int n + i))
          else Inl IndexError)"

text \<open>The loop \<open>for edge in final_edges: i, j = edge; matrix[i][j] = 1\<close>.\<close>

fun matrix_set_edges :: "edge list \<Rightarrow> int list list \<Rightarrow> py_error + int list list" where
  "matrix_set_edges [] matrix = Inr matrix"
| "matrix_set_edges ((i, j) # rest) matrix =
     (case py_index (length matrix) i of
        Inl e \<Rightarrow> Inl e
      | Inr r \<Rightarrow>
          (case py_index (length (matrix ! r)) j of
             Inl e \<Rightarrow> Inl e
           | Inr c \<Rightarrow> matrix_set_edges rest (matrix [r := (matrix ! r) [c := 1]])))"

definition build_nxn_matrix ::
  "shape list \<Rightarrow> edge list \<Rightarrow> py_error + int list list \<times> shape_mapping_entry list" where
  "build_nxn_matrix shape_positions final_edges =
     (let n = length shape_positions;
          matrix = replicate n (replicate n 0)
      in case matrix_set_edges final_edges matrix of
           Inl e \<Rightarrow> Inl e
         | Inr matrix' \<Rightarrow> Inr (matrix', map shape_mapping_of shape_positions))"

section \<open>The pipeline of \<open>main\<close>\<close>

text \<open>
  \<open>main_reconstruct\<close> is steps 1 to 3 of \<open>main\<close>, from the detector's results and the value
  of the global counter when the run starts.  \<open>main_documents\<close> adds steps 7 to 9, given the
  OCR texts: the chart document, the matrix document (or the error raised while building
  it) and the value of the counter when the run ends; \<open>None\<close> is a run whose traversal never
  returns.
\<close>

definition main_reconstruct ::
  "box list list \<Rightarrow> int \<Rightarrow> shape list \<times> conn list \<times> arrow_connection list \<times> int" where
  "main_reconstruct results counter =
     (let shape_positions = draw_shapes results;
          (pool0, counter1) = build_connections_pool shape_positions counter;
          (arrow_connections, connections_pool, counter2) =
             process_arrow_detections results pool0 counter1
      in (shape_positions, connections_pool, arrow_connections, counter2))"

definition main_documents ::
  "box list list \<Rightarrow> (int \<rightharpoonup> string) \<Rightarrow> int \<Rightarrow>
   (chart_json \<times> (py_error + int list list \<times> shape_mapping_entry list) \<times> int) option" where
  "main_documents results ocr_dict counter =
     (case main_reconstruct results counter of
        (shape_positions, connections_pool, arrow_connections, counter2) \<Rightarrow>
          (case collapse_arrow_chains connections_pool arrow_connections of
             None \<Rightarrow> None
           | Some final_edges \<Rightarrow>
               Some (build_chart_json shape_positions final_edges arrow_connections ocr_dict,
                     build_nxn_matrix shape_positions final_edges, counter2)))"

section \<open>Definitions used in the statements\<close>

text \<open>
  Modelled from the spec: the table of its section 4.2, which names the four orientation
  classes and gives tail and tip for each.  The detector's table of class names is not part
  of the source, which only has the class ids 0 to 3; a class id is read as the orientation
  its arrow has in image coordinates (y grows downwards, and a box has \<open>x1 \<le> x2\<close> and
  \<open>y1 \<le> y2\<close>): class 0 runs from the top edge to the bottom edge, class 3 from the bottom
  edge to the top edge, class 2 from the left edge to the right edge and class 1 from the
  right edge to the left edge.
\<close>

datatype orientation = PointsDown | PointsUp | PointsRight | PointsLeft

definition orientation_of_class :: "int \<Rightarrow> orientation option" where
  "orientation_of_class class_id =
     (if class_id = 0 then Some PointsDown else if class_id = 3 then Some PointsUp
      else if class_id = 2 then Some PointsRight else if class_id = 1 then Some PointsLeft
      else None)"

text \<open>The table of the spec, row by row (\<open>mid-x = (x1 + x2) / 2\<close>, \<open>mid-y = (y1 + y2) / 2\<close>).\<close>

fun spec_tail_tip :: "orientation \<Rightarrow> int \<times> int \<times> int \<times> int \<Rightarrow> point \<times> point" where
  "spec_tail_tip PointsDown (x1, y1, x2, y2) =
     ((real_of_int (x1 + x2) / 2, real_of_int y1), (real_of_int (x1 + x2) / 2, real_of_int y2))"
| "spec_tail_tip PointsUp (x1, y1, x2, y2) =
     ((real_of_int (x1 + x2) / 2, real_of_int y2), (real_of_int (x1 + x2) / 2, real_of_int y1))"
| "spec_tail_tip PointsRight (x1, y1, x2, y2) =
     ((real_of_int x1, real_of_int (y1 + y2) / 2), (real_of_int x2, real_of_int (y1 + y2) / 2))"
| "spec_tail_tip PointsLeft (x1, y1, x2, y2) =
     ((real_of_int x2, real_of_int (y1 + y2) / 2), (real_of_int x1, real_of_int (y1 + y2) / 2))"

text \<open>The Euclidean distance from a candidate point to a node of the pool.\<close>

definition conn_dist :: "point \<Rightarrow> conn \<Rightarrow> real" where
  "conn_dist candidate c =
     hypot (fst candidate - fst (conn_point c)) (snd candidate - snd (conn_point c))"


text \<open>A detection kept by the first loop of \<open>process_arrow_detections\<close>: class 0, 1, 2 or 3.\<close>

definition recognized :: "box \<Rightarrow> bool" where
  "recognized b = (fst b \<in> {0, 1, 2, 3})"

text \<open>The class and box an arrow connection records for a detection.\<close>

definition link_of_box :: "box \<Rightarrow> int \<times> int list" where
  "link_of_box b = (case b of (class_id, x1, y1, x2, y2) \<Rightarrow> (class_id, [x1, y1, x2, y2]))"

text \<open>The directed links of the arrow mesh: one pair \<open>(tail id, tip id)\<close> per arrow connection.\<close>

definition arrow_links :: "arrow_connection list \<Rightarrow> (int \<times> int) set" where
  "arrow_links arrow_connections =
     (\<lambda>arrow. (conn_id (arrow_tail arrow), conn_id (arrow_tip arrow))) ` set arrow_connections"

text \<open>The adjacency relation a \<open>graph\<close> dict stands for.\<close>

definition graph_edges :: "graph \<Rightarrow> (int \<times> int) set" where
  "graph_edges graph = {(u, v). v \<in> set (graph u)}"

text \<open>
  The edges a traversal from the seed \<open>start_id\<close> has to record: one to the shape of every
  node of type \<open>shape\<close> that \<open>get_node_by_id\<close> finds for an id other than \<open>start_id\<close> reachable
  from it along the links.
\<close>

definition reach_edges :: "(int \<times> int) set \<Rightarrow> conn list \<Rightarrow> int \<Rightarrow> int option \<Rightarrow> edge set" where
  "reach_edges links pool start_id start_shape =
     {(start_shape, conn_shape_id node) | v node.
        (start_id, v) \<in> links\<^sup>* \<and> v \<noteq> start_id \<and> get_node_by_id v pool = Some node \<and>
        conn_type node = ''shape''}"

text \<open>The candidate edges of all the seeds: the nodes of type \<open>shape\<close> of the pool.\<close>

definition chain_edges :: "conn list \<Rightarrow> arrow_connection list \<Rightarrow> edge set" where
  "chain_edges pool arrow_connections =
     (\<Union>c \<in> {c \<in> set pool. conn_type c = ''shape''}.
        reach_edges (arrow_links arrow_connections) pool (conn_id c) (conn_shape_id c))"

text \<open>
  What decreases in every iteration of the traversal, lexicographically: the number of ids
  that can still be visited (they are in the queue or are some node's neighbour), then the
  length of the queue.
\<close>

definition bfs_measure :: "graph \<Rightarrow> bfs_state \<Rightarrow> nat \<times> nat" where
  "bfs_measure graph st =
     (card ((set (fst (snd st)) \<union> Range (graph_edges graph)) - set (fst st)),
      length (fst (snd st)))"

text \<open>
  The invariant of the \<open>while\<close> loop of a traversal started with \<open>final_edges = edges0\<close>: the
  seed is visited or queued; the neighbours of a visited id are visited or queued; visited
  and queued ids are reachable from the seed; \<open>final_edges\<close> holds \<open>edges0\<close> and the edges of
  the visited ids.
\<close>

definition bfs_inv :: "graph \<Rightarrow> conn list \<Rightarrow> int \<Rightarrow> int option \<Rightarrow> edge list \<Rightarrow> bfs_state \<Rightarrow> bool" where
  "bfs_inv graph pool start_id start_shape edges0 st =
     (case st of (visited, queue, final_edges) \<Rightarrow>
        start_id \<in> set visited \<union> set queue \<and>
        (\<forall>u \<in> set visited. set (graph u) \<subseteq> set visited \<union> set queue) \<and>
        (\<forall>v \<in> set visited \<union> set queue. (start_id, v) \<in> (graph_edges graph)\<^sup>*) \<and>
        set final_edges = set edges0 \<union>
          {(start_shape, conn_shape_id node) | v node.
             v \<in> set visited \<and> v \<noteq> start_id \<and> get_node_by_id v pool = Some node \<and>
             conn_type node = ''shape''} \<and>
        (distinct edges0 \<longrightarrow> distinct final_edges))"

text \<open>
  An iteration expands the id it dequeues when that id passes the \<open>continue\<close> guard: the
  queue is not empty and its head is not in \<open>visited\<close>.
\<close>

definition bfs_expands :: "bfs_state \<Rightarrow> bool" where
  "bfs_expands st = (fst (snd st) \<noteq> [] \<and> hd (fst (snd st)) \<notin> set (fst st))"

text \<open>
  The scenario of the spec's transitive chain collapse: shape 0 with its right anchor at
  \<open>(0, 0)\<close>, shape 1 with its left anchor at \<open>(200, 0)\<close>, and two arrows pointing right, from
  \<open>(0, 0)\<close> to \<open>(100, 0)\<close> and from \<open>(100, 0)\<close> to \<open>(200, 0)\<close>.  \<open>chain_shapes\<close>, \<open>chain_pool\<close>
  and \<open>chain_arrows\<close> are the shapes, the pool and the arrow connections the pipeline builds
  from it.
\<close>

definition chain_results :: "box list list" where
  "chain_results =
     [[(7, - 40, - 20, 0, 20), (7, 200, - 20, 240, 20), (2, 0, - 5, 100, 5), (2, 100, - 5, 200, 5)]]"

definition chain_shapes :: "shape list" where
  "chain_shapes =
     [(0, 7, - 40, - 20, 40, 40, - 20, 0,
       [(''top'', - 20, - 20), (''bottom'', - 20, 20), (''left'', - 40, 0), (''right'', 0, 0)]),
      (1, 7, 200, - 20, 40, 40, 220, 0,
       [(''top'', 220, - 20), (''bottom'', 220, 20), (''left'', 200, 0), (''right'', 240, 0)])]"

definition chain_pool :: "conn list" where
  "chain_pool =
     [\<lparr>conn_id = 0, conn_point = (- 20, - 20), conn_type = ''shape'', conn_shape_id = Some 0,
       conn_side = Some ''top''\<rparr>,
      \<lparr>conn_id = 1, conn_point = (- 20, 20), conn_type = ''shape'', conn_shape_id = Some 0,
       conn_side = Some ''bottom''\<rparr>,
      \<lparr>conn_id = 2, conn_point = (- 40, 0), conn_type = ''shape'', conn_shape_id = Some 0,
       conn_side = Some ''left''\<rparr>,
      \<lparr>conn_id = 3, conn_point = (0, 0), conn_type = ''shape'', conn_shape_id = Some 0,
       conn_side = Some ''right''\<rparr>,
      \<lparr>conn_id = 4, conn_point = (220, - 20), conn_type = ''shape'', conn_shape_id = Some 1,
       conn_side = Some ''top''\<rparr>,
      \<lparr>conn_id = 5, conn_point = (220, 20), conn_type = ''shape'', conn_shape_id = Some 1,
       conn_side = Some ''bottom''\<rparr>,
      \<lparr>conn_id = 6, conn_point = (200, 0), conn_type = ''shape'', conn_shape_id = Some 1,
       conn_side = Some ''left''\<rparr>,
      \<lparr>conn_id = 7, conn_point = (240, 0), conn_type = ''shape'', conn_shape_id = Some 1,
       conn_side = Some ''right''\<rparr>,
      \<lparr>conn_id = 8, conn_point = (100, 0), conn_type = ''arrow'', conn_shape_id = None,
       conn_side = None\<rparr>]"

definition chain_arrows :: "arrow_connection list" where
  "chain_arrows =
     [\<lparr>arrow_class_id = 2, arrow_bbox = [0, - 5, 100, 5], arrow_tail_candidate = [0, 0],
       arrow_tip_candidate = [100, 0], arrow_tail = chain_pool ! 3, arrow_tip = chain_pool ! 8\<rparr>,
      \<lparr>arrow_class_id = 2, arrow_bbox = [100, - 5, 200, 5], arrow_tail_candidate = [100, 0],
       arrow_tip_candidate = [200, 0], arrow_tail = chain_pool ! 8, arrow_tip = chain_pool ! 6\<rparr>]"

text \<open>A mesh with a cycle: an arrow from node 0 to node 1 and an arrow back.\<close>

definition cycle_pool :: "conn list" where
  "cycle_pool =
     [\<lparr>conn_id = 0, conn_point = (0, 0), conn_type = ''shape'', conn_shape_id = Some 0,
       conn_side = Some ''right''\<rparr>,
      \<lparr>conn_id = 1, conn_point = (100, 0), conn_type = ''arrow'', conn_shape_id = None,
       conn_side = None\<rparr>]"

definition cycle_arrows :: "arrow_connection list" where
  "cycle_arrows =
     [\<lparr>arrow_class_id = 2, arrow_bbox = [0, - 5, 100, 5], arrow_tail_candidate = [0, 0],
       arrow_tip_candidate = [100, 0], arrow_tail = cycle_pool ! 0, arrow_tip = cycle_pool ! 1\<rparr>,
      \<lparr>arrow_class_id = 1, arrow_bbox = [0, - 5, 100, 5], arrow_tail_candidate = [100, 0],
       arrow_tip_candidate = [0, 0], arrow_tail = cycle_pool ! 1, arrow_tip = cycle_pool ! 0\<rparr>]"

text \<open>
  Every node of type \<open>shape\<close> of a pool carries a shape id from 0 up to, not including, \<open>n\<close>;
  both ends of an edge are such ids.
\<close>

definition pool_shapes_below :: "int \<Rightarrow> conn list \<Rightarrow> bool" where
  "pool_shapes_below n pool =
     (\<forall>c \<in> set pool. conn_type c = ''shape'' \<longrightarrow>
        (\<exists>k. conn_shape_id c = Some k \<and> 0 \<le> k \<and> k < n))"

definition edge_below :: "int \<Rightarrow> edge \<Rightarrow> bool" where
  "edge_below n edge =
     (\<exists>i j. edge = (Some i, Some j) \<and> 0 \<le> i \<and> i < n \<and> 0 \<le> j \<and> j < n)"

text \<open>
  Adding \<open>d\<close> to every connection-node id: of a node, of the two nodes of an arrow
  connection, of the arrows of a chart document, of the keys and neighbours of a graph, and
  of the visited and queued ids of a traversal.
\<close>

definition shift_conn :: "int \<Rightarrow> conn \<Rightarrow> conn" where
  "shift_conn d c = c\<lparr>conn_id := conn_id c + d\<rparr>"

definition shift_arrow :: "int \<Rightarrow> arrow_connection \<Rightarrow> arrow_connection" where
  "shift_arrow d arrow =
     arrow\<lparr>arrow_tail := shift_conn d (arrow_tail arrow),
           arrow_tip := shift_conn d (arrow_tip arrow)\<rparr>"

definition shift_chart :: "int \<Rightarrow> chart_json \<Rightarrow> chart_json" where
  "shift_chart d chart = chart\<lparr>chart_arrows := map (shift_arrow d) (chart_arrows chart)\<rparr>"

definition shift_graph :: "int \<Rightarrow> graph \<Rightarrow> graph" where
  "shift_graph d graph = (\<lambda>k. map (\<lambda>v. v + d) (graph (k - d)))"

definition shift_state :: "int \<Rightarrow> bfs_state \<Rightarrow> bfs_state" where
  "shift_state d st =
     (case st of (visited, queue, final_edges) \<Rightarrow>
        (map (\<lambda>v. v + d) visited, map (\<lambda>v. v + d) queue, final_edges))"

text \<open>The connection-node ids a chart document shows: tail id and tip id of each arrow.\<close>

definition chart_connection_ids :: "chart_json \<Rightarrow> (int \<times> int) list" where
  "chart_connection_ids chart =
     map (\<lambda>arrow. (conn_id (arrow_tail arrow), conn_id (arrow_tip arrow))) (chart_arrows chart)"

text \<open>The ids of a pool are pairwise different and below the counter.\<close>

definition ids_below :: "int \<Rightarrow> conn list \<Rightarrow> bool" where
  "ids_below counter pool =
     (distinct (map conn_id pool) \<and> (\<forall>c \<in> set pool. conn_id c < counter))"
section \<open>Arrow endpoints\<close>

text \<open>
  Claim C8.  For an arrow detection with box \<open>(x1, y1, x2, y2)\<close>, the tail and tip candidates
  computed by \<open>process_arrow_detections\<close> are those of the spec's table for the orientation of
  its class: down gives tail \<open>(mid-x, y1)\<close> and tip \<open>(mid-x, y2)\<close>, up gives tail \<open>(mid-x, y2)\<close>
  and tip \<open>(mid-x, y1)\<close>, right gives tail \<open>(x1, mid-y)\<close> and tip \<open>(x2, mid-y)\<close>, left gives tail
  \<open>(x2, mid-y)\<close> and tip \<open>(x1, mid-y)\<close>; a class that is none of the four has no candidates.
\<close>

theorem arrow_candidates_table:
  "arrow_candidates (class_id, x1, y1, x2, y2) =
     map_option (\<lambda>oc. spec_tail_tip oc (x1, y1, x2, y2)) (orientation_of_class class_id)"
  by (simp add: arrow_candidates_def orientation_of_class_def)

theorem arrow_candidates_table_witness:
  "orientation_of_class 2 = Some PointsRight \<and>
   arrow_candidates (2, 0, - 5, 100, 5) = Some ((0, 0), (100, 0)) \<and>
   orientation_of_class 0 = Some PointsDown \<and>
   arrow_candidates (0, 10, 20, 30, 80) = Some ((20, 20), (20, 80))"
  using arrow_candidates_table [of 2 0 "- 5" 100 5] arrow_candidates_table [of 0 10 20 30 80]
  by (simp add: orientation_of_class_def)

section \<open>Snapping\<close>

text \<open>
  What the scan returns from any accumulator: the accumulator itself when no node is
  strictly nearer than \<open>best_dist\<close>, and otherwise the first node at the least distance.
\<close>

lemma nearest_scan_spec:
  "nearest_scan candidate xs (b, bd) = (b', bd') \<Longrightarrow>
     (if \<forall>c\<in>set xs. bd \<le> conn_dist candidate c then b' = b \<and> bd' = bd
      else \<exists>i<length xs. b' = Some (xs ! i) \<and> bd' = conn_dist candidate (xs ! i) \<and> bd' < bd \<and>
             (\<forall>j<length xs. conn_dist candidate (xs ! i) \<le> conn_dist candidate (xs ! j)) \<and>
             (\<forall>j<i. conn_dist candidate (xs ! i) < conn_dist candidate (xs ! j)))"
proof (induction xs arbitrary: b bd)
  case Nil
  then show ?case by simp
next
  case (Cons c rest)
  let ?d = "conn_dist candidate"
  show ?case
  proof (cases "?d c < bd")
    case True
    with Cons.prems have run: "nearest_scan candidate rest (Some c, ?d c) = (b', bd')"
      by (simp add: conn_dist_def)
    note IH = Cons.IH [OF run]
    show ?thesis
    proof (cases "\<forall>x\<in>set rest. ?d c \<le> ?d x")
      case all: True
      with IH have eq: "b' = Some c" "bd' = ?d c" by simp_all
      have "0 < length (c # rest) \<and> b' = Some ((c # rest) ! 0) \<and> bd' = ?d ((c # rest) ! 0) \<and>
            bd' < bd \<and> (\<forall>j<length (c # rest). ?d ((c # rest) ! 0) \<le> ?d ((c # rest) ! j)) \<and>
            (\<forall>j<0. ?d ((c # rest) ! 0) < ?d ((c # rest) ! j))"
        using eq True all by (auto simp: nth_Cons')
      then have "\<exists>i<length (c # rest). b' = Some ((c # rest) ! i) \<and> bd' = ?d ((c # rest) ! i) \<and>
            bd' < bd \<and> (\<forall>j<length (c # rest). ?d ((c # rest) ! i) \<le> ?d ((c # rest) ! j)) \<and>
            (\<forall>j<i. ?d ((c # rest) ! i) < ?d ((c # rest) ! j))"
        by blast
      with True show ?thesis by auto
    next
      case False
      with IH obtain i where i: "i < length rest" "b' = Some (rest ! i)" "bd' = ?d (rest ! i)"
        "bd' < ?d c" "\<forall>j<length rest. ?d (rest ! i) \<le> ?d (rest ! j)"
        "\<forall>j<i. ?d (rest ! i) < ?d (rest ! j)"
        by auto
      have "Suc i < length (c # rest) \<and> b' = Some ((c # rest) ! Suc i) \<and>
            bd' = ?d ((c # rest) ! Suc i) \<and> bd' < bd \<and>
            (\<forall>j<length (c # rest). ?d ((c # rest) ! Suc i) \<le> ?d ((c # rest) ! j)) \<and>
            (\<forall>j<Suc i. ?d ((c # rest) ! Suc i) < ?d ((c # rest) ! j))"
        using i True by (auto simp: nth_Cons' less_Suc_eq_0_disj)
      then have "\<exists>i<length (c # rest). b' = Some ((c # rest) ! i) \<and> bd' = ?d ((c # rest) ! i) \<and>
            bd' < bd \<and> (\<forall>j<length (c # rest). ?d ((c # rest) ! i) \<le> ?d ((c # rest) ! j)) \<and>
            (\<forall>j<i. ?d ((c # rest) ! i) < ?d ((c # rest) ! j))"
        by blast
      with True show ?thesis by auto
    qed
  next
    case nless: False
    with Cons.prems have run: "nearest_scan candidate rest (b, bd) = (b', bd')"
      by (simp add: conn_dist_def)
    note IH = Cons.IH [OF run]
    show ?thesis
    proof (cases "\<forall>x\<in>set rest. bd \<le> ?d x")
      case True
      with IH nless show ?thesis by auto
    next
      case False
      with IH obtain i where i: "i < length rest" "b' = Some (rest ! i)" "bd' = ?d (rest ! i)"
        "bd' < bd" "\<forall>j<length rest. ?d (rest ! i) \<le> ?d (rest ! j)"
        "\<forall>j<i. ?d (rest ! i) < ?d (rest ! j)"
        by auto
      have "Suc i < length (c # rest) \<and> b' = Some ((c # rest) ! Suc i) \<and>
            bd' = ?d ((c # rest) ! Suc i) \<and> bd' < bd \<and>
            (\<forall>j<length (c # rest). ?d ((c # rest) ! Suc i) \<le> ?d ((c # rest) ! j)) \<and>
            (\<forall>j<Suc i. ?d ((c # rest) ! Suc i) < ?d ((c # rest) ! j))"
        using i nless by (auto simp: nth_Cons' less_Suc_eq_0_disj)
      then have "\<exists>i<length (c # rest). b' = Some ((c # rest) ! i) \<and> bd' = ?d ((c # rest) ! i) \<and>
            bd' < bd \<and> (\<forall>j<length (c # rest). ?d ((c # rest) ! i) \<le> ?d ((c # rest) ! j)) \<and>
            (\<forall>j<i. ?d ((c # rest) ! i) < ?d ((c # rest) ! j))"
        by blast
      with False show ?thesis by auto
    qed
  qed
qed


lemma Min_conn_dist_less:
  "xs \<noteq> [] \<Longrightarrow> Min (conn_dist candidate ` set xs) < t \<longleftrightarrow> (\<exists>c\<in>set xs. conn_dist candidate c < t)"
  by (simp add: Min_less_iff)

text \<open>
  Claim C4.  \<open>find_nearest_connection\<close> returns the pool node at the least Euclidean distance
  from the candidate when that distance is strictly below the threshold, the first such
  node in insertion order, and leaves the pool and the counter as they are; otherwise (also
  on an empty pool) it creates one floating node at the candidate point, with the next id,
  appends it to the pool and returns it.
\<close>

theorem find_nearest_connection_nearest_or_new:
  assumes "find_nearest_connection candidate pool threshold counter = (best, pool', counter')"
  shows "if pool \<noteq> [] \<and> Min (conn_dist candidate ` set pool) < threshold
         then pool' = pool \<and> counter' = counter \<and>
              (\<exists>i<length pool. best = pool ! i \<and>
                 conn_dist candidate best = Min (conn_dist candidate ` set pool) \<and>
                 (\<forall>j<i. conn_dist candidate best < conn_dist candidate (pool ! j)))
         else best = \<lparr>conn_id = counter, conn_point = candidate, conn_type = ''arrow'',
                       conn_shape_id = None, conn_side = None\<rparr> \<and>
              pool' = pool @ [best] \<and> counter' = counter + 1"
proof -
  obtain b bd where scan: "nearest_scan candidate pool (None, threshold) = (b, bd)"
    by (cases "nearest_scan candidate pool (None, threshold)")
  note spec = nearest_scan_spec [OF scan]
  show ?thesis
  proof (cases "\<forall>c\<in>set pool. threshold \<le> conn_dist candidate c")
    case True
    with spec have "b = None" by simp
    moreover have "\<not> (pool \<noteq> [] \<and> Min (conn_dist candidate ` set pool) < threshold)"
      using True by (fastforce simp: Min_conn_dist_less not_less)
    ultimately show ?thesis
      using assms scan
      by (auto simp: find_nearest_connection_def get_next_connection_id_def Let_def)
  next
    case False
    then have ne: "pool \<noteq> []" by auto
    from False spec have "\<exists>i<length pool. b = Some (pool ! i) \<and>
        bd = conn_dist candidate (pool ! i) \<and> bd < threshold \<and>
        (\<forall>j<length pool. conn_dist candidate (pool ! i) \<le> conn_dist candidate (pool ! j)) \<and>
        (\<forall>j<i. conn_dist candidate (pool ! i) < conn_dist candidate (pool ! j))"
      by (simp only: if_False)
    then obtain i where i: "i < length pool" "b = Some (pool ! i)"
      "bd = conn_dist candidate (pool ! i)" "bd < threshold"
      "\<forall>j<length pool. conn_dist candidate (pool ! i) \<le> conn_dist candidate (pool ! j)"
      "\<forall>j<i. conn_dist candidate (pool ! i) < conn_dist candidate (pool ! j)"
      by blast
    have min: "Min (conn_dist candidate ` set pool) = conn_dist candidate (pool ! i)"
    proof (rule Min_eqI)
      show "finite (conn_dist candidate ` set pool)" by simp
      show "conn_dist candidate (pool ! i) \<in> conn_dist candidate ` set pool"
        using i(1) by simp
      fix y assume "y \<in> conn_dist candidate ` set pool"
      then obtain j where "j < length pool" "y = conn_dist candidate (pool ! j)"
        by (auto simp: in_set_conv_nth)
      with i(5) show "conn_dist candidate (pool ! i) \<le> y" by simp
    qed
    have res: "best = pool ! i" "pool' = pool" "counter' = counter"
      using assms scan i(2) by (auto simp: find_nearest_connection_def)
    have "\<exists>i<length pool. best = pool ! i \<and>
            conn_dist candidate best = Min (conn_dist candidate ` set pool) \<and>
            (\<forall>j<i. conn_dist candidate best < conn_dist candidate (pool ! j))"
      using i(1) i(6) min res(1) by auto
    with ne min i(3,4) res show ?thesis by simp
  qed
qed


lemma nearest_scan_append:
  "nearest_scan candidate (xs @ ys) acc = nearest_scan candidate ys (nearest_scan candidate xs acc)"
proof (induction xs arbitrary: acc)
  case Nil
  show ?case by simp
next
  case (Cons c xs)
  show ?case by (cases acc) (simp add: Cons.IH Let_def)
qed

lemma nearest_scan_None:
  assumes "fst (nearest_scan candidate xs (None, t)) = None"
  shows "nearest_scan candidate xs (None, t) = (None, t)"
proof -
  obtain b bd where scan: "nearest_scan candidate xs (None, t) = (b, bd)"
    by (cases "nearest_scan candidate xs (None, t)")
  with assms have "b = None" by simp
  with nearest_scan_spec [OF scan] scan show ?thesis
    by (auto split: if_splits)
qed

text \<open>
  Claim C7, for a positive threshold.  Two calls of \<open>find_nearest_connection\<close> in sequence
  with the same candidate point and the same threshold return the same node, and the second
  call adds no node to the pool and draws no id.
\<close>

theorem find_nearest_connection_resnap:
  assumes "0 < threshold"
    and "find_nearest_connection candidate pool threshold counter = (best1, pool1, counter1)"
    and "find_nearest_connection candidate pool1 threshold counter1 = (best2, pool2, counter2)"
  shows "conn_id best2 = conn_id best1 \<and> best2 = best1 \<and> pool2 = pool1 \<and> counter2 = counter1"
proof (cases "fst (nearest_scan candidate pool (None, threshold))")
  case (Some b)
  with assms(2) have "best1 = b" "pool1 = pool" "counter1 = counter"
    by (simp_all add: find_nearest_connection_def)
  with assms(3) Some show ?thesis
    by (simp add: find_nearest_connection_def)
next
  case None
  let ?new = "\<lparr>conn_id = counter, conn_point = candidate, conn_type = ''arrow'',
                 conn_shape_id = None, conn_side = None\<rparr>"
  from None assms(2) have first: "best1 = ?new" "pool1 = pool @ [?new]" "counter1 = counter + 1"
    by (auto simp: find_nearest_connection_def get_next_connection_id_def Let_def)
  have "nearest_scan candidate pool1 (None, threshold) = (Some ?new, 0)"
    using assms(1) nearest_scan_None [OF None]
    by (simp add: first(2) nearest_scan_append hypot_def)
  then have "find_nearest_connection candidate pool1 threshold counter1 = (?new, pool1, counter1)"
    by (simp add: find_nearest_connection_def)
  with assms(3) have "best2 = ?new" "pool2 = pool1" "counter2 = counter1"
    by simp_all
  with first(1) show ?thesis by simp
qed


text \<open>Comparing a square root with a number, for evaluating \<open>hypot\<close> on given points.\<close>

lemma sqrt_less_pos: "0 < t \<Longrightarrow> sqrt a < t \<longleftrightarrow> a < t\<^sup>2"
  by (metis less_eq_real_def real_sqrt_abs real_sqrt_less_iff abs_of_nonneg)

lemma pos_less_sqrt: "0 \<le> t \<Longrightarrow> t < sqrt a \<longleftrightarrow> t\<^sup>2 < a"
  by (metis real_sqrt_abs real_sqrt_less_iff abs_of_nonneg)

lemmas snap_eval =
  find_nearest_connection_def get_next_connection_id_def hypot_def sqrt_less_pos pos_less_sqrt
  Let_def

theorem find_nearest_connection_nearest_or_new_witness:
  "find_nearest_connection (0, 0)
     [\<lparr>conn_id = 0, conn_point = (3, 4), conn_type = ''shape'', conn_shape_id = Some 0,
       conn_side = Some ''top''\<rparr>,
      \<lparr>conn_id = 1, conn_point = (- 3, 4), conn_type = ''arrow'', conn_shape_id = None,
       conn_side = None\<rparr>] 50 2 =
     (\<lparr>conn_id = 0, conn_point = (3, 4), conn_type = ''shape'', conn_shape_id = Some 0,
       conn_side = Some ''top''\<rparr>,
      [\<lparr>conn_id = 0, conn_point = (3, 4), conn_type = ''shape'', conn_shape_id = Some 0,
        conn_side = Some ''top''\<rparr>,
       \<lparr>conn_id = 1, conn_point = (- 3, 4), conn_type = ''arrow'', conn_shape_id = None,
        conn_side = None\<rparr>], 2) \<and>
   Min (conn_dist (0, 0) `
     set [\<lparr>conn_id = 0, conn_point = (3, 4), conn_type = ''shape'', conn_shape_id = Some 0,
            conn_side = Some ''top''\<rparr>,
          \<lparr>conn_id = 1, conn_point = (- 3, 4), conn_type = ''arrow'', conn_shape_id = None,
            conn_side = None\<rparr>]) < 50"
proof -
  let ?a = "\<lparr>conn_id = 0, conn_point = (3, 4), conn_type = ''shape'', conn_shape_id = Some 0,
             conn_side = Some ''top''\<rparr>"
  let ?b = "\<lparr>conn_id = 1, conn_point = (- 3, 4), conn_type = ''arrow'', conn_shape_id = None,
             conn_side = None\<rparr>"
  have run: "find_nearest_connection (0, 0) [?a, ?b] 50 2 = (?a, [?a, ?b], 2)"
    by (simp add: snap_eval)
  have "\<not> (\<exists>c. find_nearest_connection (0, 0) [?a, ?b] 50 2 = (?a, [?a, ?b] @ [c], 3))"
    using run by simp
  with find_nearest_connection_nearest_or_new [OF run] run show ?thesis
    by (auto split: if_splits)
qed

theorem find_nearest_connection_resnap_witness:
  "(0 :: real) < 50 \<and>
   find_nearest_connection (7, 9) [] 50 0 =
     (\<lparr>conn_id = 0, conn_point = (7, 9), conn_type = ''arrow'', conn_shape_id = None,
       conn_side = None\<rparr>,
      [\<lparr>conn_id = 0, conn_point = (7, 9), conn_type = ''arrow'', conn_shape_id = None,
        conn_side = None\<rparr>], 1) \<and>
   find_nearest_connection (7, 9)
     [\<lparr>conn_id = 0, conn_point = (7, 9), conn_type = ''arrow'', conn_shape_id = None,
       conn_side = None\<rparr>] 50 1 =
     (\<lparr>conn_id = 0, conn_point = (7, 9), conn_type = ''arrow'', conn_shape_id = None,
       conn_side = None\<rparr>,
      [\<lparr>conn_id = 0, conn_point = (7, 9), conn_type = ''arrow'', conn_shape_id = None,
        conn_side = None\<rparr>], 1)"
proof -
  let ?n = "\<lparr>conn_id = 0, conn_point = (7, 9), conn_type = ''arrow'', conn_shape_id = None,
             conn_side = None\<rparr>"
  have first: "find_nearest_connection (7, 9) [] 50 0 = (?n, [?n], 1)"
    by (simp add: snap_eval)
  obtain b p c where second: "find_nearest_connection (7, 9) [?n] 50 1 = (b, p, c)"
    by (cases "find_nearest_connection (7, 9) [?n] 50 1")
  have "(0 :: real) < 50" by simp
  from find_nearest_connection_resnap [OF this first second] first second
  show ?thesis by simp
qed

text \<open>
  With the threshold 0 no distance is strictly below it: the second call does not find the
  node the first one created, and creates a second node with the next id.
\<close>

theorem find_nearest_connection_resnap_counterexample:
  "find_nearest_connection (7, 9) [] 0 0 =
     (\<lparr>conn_id = 0, conn_point = (7, 9), conn_type = ''arrow'', conn_shape_id = None,
       conn_side = None\<rparr>,
      [\<lparr>conn_id = 0, conn_point = (7, 9), conn_type = ''arrow'', conn_shape_id = None,
        conn_side = None\<rparr>], 1) \<and>
   find_nearest_connection (7, 9)
     [\<lparr>conn_id = 0, conn_point = (7, 9), conn_type = ''arrow'', conn_shape_id = None,
       conn_side = None\<rparr>] 0 1 =
     (\<lparr>conn_id = 1, conn_point = (7, 9), conn_type = ''arrow'', conn_shape_id = None,
       conn_side = None\<rparr>,
      [\<lparr>conn_id = 0, conn_point = (7, 9), conn_type = ''arrow'', conn_shape_id = None,
        conn_side = None\<rparr>,
       \<lparr>conn_id = 1, conn_point = (7, 9), conn_type = ''arrow'', conn_shape_id = None,
        conn_side = None\<rparr>], 2)"
  by (simp add: snap_eval)

section \<open>Arrow detections\<close>

lemma arrow_candidates_None: "arrow_candidates b = None \<longleftrightarrow> \<not> recognized b"
  by (cases b) (auto simp: arrow_candidates_def recognized_def)

lemma process_arrows_links:
  "map (\<lambda>a. (arrow_class_id a, arrow_bbox a)) (fst (process_arrows arrows (acc, pool, counter))) =
     map (\<lambda>a. (arrow_class_id a, arrow_bbox a)) acc @ map link_of_box (filter recognized arrows)"
proof (induction arrows arbitrary: acc pool counter)
  case Nil
  show ?case by simp
next
  case (Cons b rest)
  show ?case
  proof (cases "arrow_candidates b")
    case None
    then show ?thesis
      using Cons.IH arrow_candidates_None [of b] by simp
  next
    case (Some cands)
    then have rec: "recognized b"
      using arrow_candidates_None [of b] by simp
    obtain tail_cand tip_cand where cands: "cands = (tail_cand, tip_cand)" by (cases cands)
    obtain t p1 c1 where r1: "find_nearest_connection tail_cand pool 50 counter = (t, p1, c1)"
      by (cases "find_nearest_connection tail_cand pool 50 counter")
    obtain h p2 c2 where r2: "find_nearest_connection tip_cand p1 50 c1 = (h, p2, c2)"
      by (cases "find_nearest_connection tip_cand p1 50 c1")
    obtain cl ax1 ay1 ax2 ay2 where b: "b = (cl, ax1, ay1, ax2, ay2)" by (cases b)
    show ?thesis
      using Some rec by (simp add: cands r1 r2 b Cons.IH link_of_box_def)
  qed
qed

lemma arrow_detections_of_filter:
  "arrow_detections_of results = filter recognized (concat results)"
proof -
  have "(\<lambda>(class_id, x1, y1, x2, y2). class_id \<in> {0, 1, 2, 3}) = recognized"
    by (auto simp: fun_eq_iff recognized_def)
  then show ?thesis
    by (simp add: arrow_detections_of_def filter_concat)
qed

text \<open>
  Claim C3, as the code has it.  \<open>process_arrow_detections\<close> produces one arrow connection
  for every detection of class 0, 1, 2 or 3, in order, whatever the width and height of its
  box, and none for a detection of another class; detections of another class change
  neither the connections, nor the pool, nor the counter.  No step of the function can
  raise.
\<close>

theorem process_arrow_detections_links:
  "map (\<lambda>a. (arrow_class_id a, arrow_bbox a)) (fst (process_arrow_detections results pool counter)) =
     map link_of_box (filter recognized (concat results)) \<and>
   process_arrow_detections (map (filter recognized) results) pool counter =
     process_arrow_detections results pool counter"
proof
  show "map (\<lambda>a. (arrow_class_id a, arrow_bbox a)) (fst (process_arrow_detections results pool counter)) =
     map link_of_box (filter recognized (concat results))"
    by (simp add: process_arrow_detections_def process_arrows_links arrow_detections_of_filter)
  have "filter recognized (concat (map (filter recognized) results)) = filter recognized (concat results)"
    by (induction results) simp_all
  then show "process_arrow_detections (map (filter recognized) results) pool counter =
     process_arrow_detections results pool counter"
    by (simp add: process_arrow_detections_def arrow_detections_of_filter)
qed

lemmas arrows_eval =
  process_arrow_detections_def arrow_detections_of_def arrow_candidates_def snap_eval

text \<open>
  A box of width 0 is not skipped: the detection \<open>(0, 10, 10, 10, 100)\<close> yields an arrow
  connection between two new floating nodes.
\<close>

theorem process_arrow_detections_skip_counterexample:
  "process_arrow_detections [[(0, 10, 10, 10, 100)]] [] 0 =
     ([\<lparr>arrow_class_id = 0, arrow_bbox = [10, 10, 10, 100],
        arrow_tail_candidate = [10, 10], arrow_tip_candidate = [10, 100],
        arrow_tail = \<lparr>conn_id = 0, conn_point = (10, 10), conn_type = ''arrow'',
                       conn_shape_id = None, conn_side = None\<rparr>,
        arrow_tip = \<lparr>conn_id = 1, conn_point = (10, 100), conn_type = ''arrow'',
                      conn_shape_id = None, conn_side = None\<rparr>\<rparr>],
      [\<lparr>conn_id = 0, conn_point = (10, 10), conn_type = ''arrow'', conn_shape_id = None,
        conn_side = None\<rparr>,
       \<lparr>conn_id = 1, conn_point = (10, 100), conn_type = ''arrow'', conn_shape_id = None,
        conn_side = None\<rparr>], 2)"
  by (simp add: arrows_eval)

theorem process_arrow_detections_links_witness:
  "map (\<lambda>a. (arrow_class_id a, arrow_bbox a))
     (fst (process_arrow_detections [[(7, 0, 0, 40, 40), (0, 10, 10, 10, 100), (12, 5, 5, 9, 9)]] [] 0)) =
     [(0, [10, 10, 10, 100])] \<and>
   process_arrow_detections [[(7, 0, 0, 40, 40), (0, 10, 10, 10, 100), (12, 5, 5, 9, 9)]] [] 0 =
     process_arrow_detections [[(0, 10, 10, 10, 100)]] [] 0"
  using process_arrow_detections_links
    [of "[[(7, 0, 0, 40, 40), (0, 10, 10, 10, 100), (12, 5, 5, 9, 9)]]" "[]" 0]
  by (simp add: recognized_def link_of_box_def)

section \<open>The traversal\<close>

text \<open>The dict built from the arrow connections stands for their links, a finite relation.\<close>

lemma build_graph_set:
  "set (build_graph arrows g k) = set (g k) \<union> {t. (k, t) \<in> arrow_links arrows}"
  by (induction arrows arbitrary: g) (auto simp: arrow_links_def)

lemma graph_edges_build_graph:
  "graph_edges (build_graph arrows (\<lambda>k. [])) = arrow_links arrows"
  by (auto simp: graph_edges_def build_graph_set)

lemma finite_arrow_links: "finite (arrow_links arrows)"
  by (simp add: arrow_links_def)

lemma set_set_add: "set (set_add x s) = insert x (set s)"
  by (auto simp: set_add_def)

lemma distinct_set_add: "distinct s \<Longrightarrow> distinct (set_add x s)"
  by (simp add: set_add_def)

text \<open>
  Every iteration entered with a non-empty queue decreases the measure, which gives an
  induction rule for the loop: a property holds of a state when it follows from the
  property of the next state.
\<close>

lemma bfs_body_decreases:
  assumes fin: "finite (graph_edges g)" and ne: "fst (snd st) \<noteq> []"
  shows "(bfs_measure g (bfs_body g pool s ss st), bfs_measure g st) \<in> less_than <*lex*> less_than"
proof -
  obtain vis q fe where st: "st = (vis, q, fe)" by (cases st)
  with ne obtain c q' where q: "q = c # q'" by (cases q) auto
  let ?R = "Range (graph_edges g)"
  have finR: "finite ?R" using fin by (rule finite_Range)
  show ?thesis
  proof (cases "c \<in> set vis")
    case True
    then have "(insert c (set q') \<union> ?R) - set vis = (set q' \<union> ?R) - set vis" by auto
    with True show ?thesis by (simp add: st q bfs_measure_def)
  next
    case False
    let ?vis' = "set_add c vis"
    let ?new = "filter (\<lambda>neighbor. neighbor \<notin> set ?vis') (g c)"
    have "set ?new \<subseteq> ?R" by (auto simp: graph_edges_def)
    then have sub: "(set (q' @ ?new) \<union> ?R) - set ?vis' \<subseteq> ((set q \<union> ?R) - set vis) - {c}"
      by (auto simp: q set_set_add)
    have "c \<in> (set q \<union> ?R) - set vis" using False by (simp add: q)
    with sub have "(set (q' @ ?new) \<union> ?R) - set ?vis' \<subset> (set q \<union> ?R) - set vis"
      by blast
    moreover have "finite ((set q \<union> ?R) - set vis)" using finR by simp
    ultimately have "card ((set (q' @ ?new) \<union> ?R) - set ?vis') < card ((set q \<union> ?R) - set vis)"
      by (rule psubset_card_mono [rotated])
    with False show ?thesis
      by (simp add: st q bfs_measure_def Let_def)
  qed
qed

lemma bfs_induct [consumes 1, case_names step]:
  assumes fin: "finite (graph_edges g)"
    and step: "\<And>st. (fst (snd st) \<noteq> [] \<Longrightarrow> P (bfs_body g pool s ss st)) \<Longrightarrow> P st"
  shows "P st"
proof -
  have "wf (inv_image (less_than <*lex*> less_than) (bfs_measure g))"
    by (intro wf_inv_image wf_lex_prod wf_less_than)
  then show ?thesis
  proof (induction st rule: wf_induct_rule)
    case (less st)
    show ?case
    proof (rule step)
      assume "fst (snd st) \<noteq> []"
      then have "(bfs_body g pool s ss st, st) \<in> inv_image (less_than <*lex*> less_than) (bfs_measure g)"
        using bfs_body_decreases [OF fin] by (simp add: inv_image_def)
      then show "P (bfs_body g pool s ss st)" by (rule less)
    qed
  qed
qed

text \<open>The loop exits: some number of iterations empties the queue, and that state is returned.\<close>

lemma bfs_while_iterates:
  assumes fin: "finite (graph_edges g)"
  shows "\<exists>n. fst (snd ((bfs_body g pool s ss ^^ n) st)) = [] \<and>
             bfs_while g pool s ss st = Some ((bfs_body g pool s ss ^^ n) st)"
  using fin
proof (induction st rule: bfs_induct [where pool = pool and s = s and ss = ss])
  case (step st)
  show ?case
  proof (cases "fst (snd st) = []")
    case True
    then have "fst (snd ((bfs_body g pool s ss ^^ 0) st)) = [] \<and>
             bfs_while g pool s ss st = Some ((bfs_body g pool s ss ^^ 0) st)"
      by (simp add: bfs_while.simps)
    then show ?thesis by blast
  next
    case False
    from step [OF False] obtain n where
      n: "fst (snd ((bfs_body g pool s ss ^^ n) (bfs_body g pool s ss st))) = []"
         "bfs_while g pool s ss (bfs_body g pool s ss st) =
            Some ((bfs_body g pool s ss ^^ n) (bfs_body g pool s ss st))"
      by blast
    have "bfs_while g pool s ss st = bfs_while g pool s ss (bfs_body g pool s ss st)"
      using False by (subst bfs_while.simps) simp
    with n have "fst (snd ((bfs_body g pool s ss ^^ Suc n) st)) = [] \<and>
             bfs_while g pool s ss st = Some ((bfs_body g pool s ss ^^ Suc n) st)"
      by (simp add: funpow_swap1)
    then show ?thesis by blast
  qed
qed

text \<open>The invariant holds initially and is kept by every iteration.\<close>

lemma bfs_body_empty: "fst (snd st) = [] \<Longrightarrow> bfs_body g pool s ss st = st"
  by (cases st) auto

lemma bfs_inv_body:
  assumes inv: "bfs_inv g pool s ss fe0 st"
  shows "bfs_inv g pool s ss fe0 (bfs_body g pool s ss st)"
proof -
  obtain vis q fe where st: "st = (vis, q, fe)" by (cases st)
  show ?thesis
  proof (cases q)
    case Nil
    with inv st show ?thesis by simp
  next
    case (Cons c q')
    from inv have i1: "s \<in> set vis \<union> set q"
      and i2: "\<forall>u \<in> set vis. set (g u) \<subseteq> set vis \<union> set q"
      and i3: "\<forall>v \<in> set vis \<union> set q. (s, v) \<in> (graph_edges g)\<^sup>*"
      and i4: "set fe = set fe0 \<union>
          {(ss, conn_shape_id node) | v node.
             v \<in> set vis \<and> v \<noteq> s \<and> get_node_by_id v pool = Some node \<and>
             conn_type node = ''shape''}"
      and i5: "distinct fe0 \<longrightarrow> distinct fe"
      by (simp_all add: bfs_inv_def st)
    show ?thesis
    proof (cases "c \<in> set vis")
      case True
      have "s \<in> set vis \<union> set q'" using i1 True by (auto simp: Cons)
      moreover have "\<forall>u \<in> set vis. set (g u) \<subseteq> set vis \<union> set q'"
        using i2 True by (auto simp: Cons)
      moreover have "\<forall>v \<in> set vis \<union> set q'. (s, v) \<in> (graph_edges g)\<^sup>*"
        using i3 by (auto simp: Cons)
      ultimately show ?thesis
        using True i4 i5 by (simp add: bfs_inv_def st Cons)
    next
      case False
      let ?vis' = "set_add c vis"
      let ?q' = "q' @ filter (\<lambda>neighbor. neighbor \<notin> set ?vis') (g c)"
      let ?fe' = "if c \<noteq> s then
                  (case get_node_by_id c pool of
                     Some node \<Rightarrow>
                       if conn_type node = ''shape'' then set_add (ss, conn_shape_id node) fe
                       else fe
                   | None \<Rightarrow> fe)
                else fe"
      have body: "bfs_body g pool s ss st = (?vis', ?q', ?fe')"
        using False by (simp add: st Cons Let_def)
      have sc: "(s, c) \<in> (graph_edges g)\<^sup>*" using i3 by (simp add: Cons)
      have j1: "s \<in> set ?vis' \<union> set ?q'"
        using i1 by (auto simp: Cons set_set_add)
      have j2: "\<forall>u \<in> set ?vis'. set (g u) \<subseteq> set ?vis' \<union> set ?q'"
        using i2 by (auto simp: Cons set_set_add)
      have j3: "\<forall>v \<in> set ?vis' \<union> set ?q'. (s, v) \<in> (graph_edges g)\<^sup>*"
      proof
        fix v assume v: "v \<in> set ?vis' \<union> set ?q'"
        show "(s, v) \<in> (graph_edges g)\<^sup>*"
        proof (cases "v \<in> set vis \<union> set q")
          case True
          with i3 show ?thesis by blast
        next
          case False
          with v have "v \<in> set (g c)" by (auto simp: Cons set_set_add)
          then have "(c, v) \<in> graph_edges g" by (simp add: graph_edges_def)
          with sc show ?thesis by (rule rtrancl_into_rtrancl)
        qed
      qed
      have j4: "set ?fe' = set fe0 \<union>
          {(ss, conn_shape_id node) | v node.
             v \<in> set ?vis' \<and> v \<noteq> s \<and> get_node_by_id v pool = Some node \<and>
             conn_type node = ''shape''}"
        using i4 by (auto simp: set_set_add split: option.splits)
      have j5: "distinct fe0 \<longrightarrow> distinct ?fe'"
        using i5 by (auto simp: distinct_set_add split: option.splits)
      show ?thesis
        unfolding body bfs_inv_def using j1 j2 j3 j4 j5 by simp
    qed
  qed
qed

lemma bfs_inv_funpow:
  "bfs_inv g pool s ss fe0 st \<Longrightarrow> bfs_inv g pool s ss fe0 ((bfs_body g pool s ss ^^ n) st)"
  by (induction n) (simp_all add: bfs_inv_body)

text \<open>On exit the visited ids are the ids reachable from the seed.\<close>

lemma bfs_inv_final:
  assumes inv: "bfs_inv g pool s ss fe0 (vis, [], fe)"
  shows "set fe = set fe0 \<union> reach_edges (graph_edges g) pool s ss"
    and "distinct fe0 \<Longrightarrow> distinct fe"
proof -
  from inv have i1: "s \<in> set vis"
    and i2: "\<forall>u \<in> set vis. set (g u) \<subseteq> set vis"
    and i3: "\<forall>v \<in> set vis. (s, v) \<in> (graph_edges g)\<^sup>*"
    and i4: "set fe = set fe0 \<union>
          {(ss, conn_shape_id node) | v node.
             v \<in> set vis \<and> v \<noteq> s \<and> get_node_by_id v pool = Some node \<and>
             conn_type node = ''shape''}"
    and i5: "distinct fe0 \<longrightarrow> distinct fe"
    by (simp_all add: bfs_inv_def)
  have "v \<in> set vis" if "(s, v) \<in> (graph_edges g)\<^sup>*" for v
    using that
  proof (induction rule: rtrancl_induct)
    case base
    show ?case by (rule i1)
  next
    case (step y z)
    then have "z \<in> set (g y)" by (simp add: graph_edges_def)
    with step.IH i2 show ?case by blast
  qed
  with i3 have "set vis = {v. (s, v) \<in> (graph_edges g)\<^sup>*}" by blast
  with i4 show "set fe = set fe0 \<union> reach_edges (graph_edges g) pool s ss"
    by (simp add: reach_edges_def)
  show "distinct fe0 \<Longrightarrow> distinct fe" using i5 by simp
qed

lemma bfs_inv_initial: "bfs_inv g pool s ss fe0 ([], [s], fe0)"
  by (simp add: bfs_inv_def)

lemma bfs_while_result:
  assumes fin: "finite (graph_edges g)"
  shows "\<exists>vis fe. bfs_while g pool s ss ([], [s], fe0) = Some (vis, [], fe) \<and>
           set fe = set fe0 \<union> reach_edges (graph_edges g) pool s ss \<and>
           (distinct fe0 \<longrightarrow> distinct fe)"
proof -
  from bfs_while_iterates [OF fin] obtain n where
    n: "fst (snd ((bfs_body g pool s ss ^^ n) ([], [s], fe0))) = []"
       "bfs_while g pool s ss ([], [s], fe0) = Some ((bfs_body g pool s ss ^^ n) ([], [s], fe0))"
    by blast
  obtain vis q fe where fin_st: "(bfs_body g pool s ss ^^ n) ([], [s], fe0) = (vis, q, fe)"
    by (cases "(bfs_body g pool s ss ^^ n) ([], [s], fe0)")
  with n(1) have q: "q = []" by simp
  have "bfs_inv g pool s ss fe0 (vis, [], fe)"
    using bfs_inv_funpow [OF bfs_inv_initial, of g pool s ss fe0 n] fin_st q by simp
  from bfs_inv_final [OF this] n(2) fin_st q show ?thesis by simp
qed

text \<open>The loop over the seeds, and the whole function.\<close>

lemma collapse_seeds_result:
  assumes fin: "finite (graph_edges g)"
  shows "\<exists>fe. collapse_seeds g pool seeds fe0 = Some fe \<and>
           set fe = set fe0 \<union>
             (\<Union>c \<in> {c \<in> set seeds. conn_type c = ''shape''}.
                reach_edges (graph_edges g) pool (conn_id c) (conn_shape_id c)) \<and>
           (distinct fe0 \<longrightarrow> distinct fe)"
proof (induction seeds arbitrary: fe0)
  case Nil
  show ?case by simp
next
  case (Cons c rest)
  show ?case
  proof (cases "conn_type c = ''shape''")
    case True
    from bfs_while_result [OF fin, of pool "conn_id c" "conn_shape_id c" fe0]
    obtain vis fe1 where
      b: "bfs_while g pool (conn_id c) (conn_shape_id c) ([], [conn_id c], fe0) = Some (vis, [], fe1)"
         "set fe1 = set fe0 \<union> reach_edges (graph_edges g) pool (conn_id c) (conn_shape_id c)"
         "distinct fe0 \<longrightarrow> distinct fe1"
      by blast
    from Cons.IH [of fe1] obtain fe where
      r: "collapse_seeds g pool rest fe1 = Some fe"
         "set fe = set fe1 \<union>
             (\<Union>c \<in> {c \<in> set rest. conn_type c = ''shape''}.
                reach_edges (graph_edges g) pool (conn_id c) (conn_shape_id c))"
         "distinct fe1 \<longrightarrow> distinct fe"
      by blast
    have "collapse_seeds g pool (c # rest) fe0 = Some fe"
      using True b(1) r(1) by simp
    moreover have "set fe = set fe0 \<union>
             (\<Union>x \<in> {x \<in> set (c # rest). conn_type x = ''shape''}.
                reach_edges (graph_edges g) pool (conn_id x) (conn_shape_id x))"
      using True b(2) r(2) by auto
    ultimately show ?thesis using b(3) r(3) by blast
  next
    case False
    from Cons.IH [of fe0] obtain fe where
      r: "collapse_seeds g pool rest fe0 = Some fe"
         "set fe = set fe0 \<union>
             (\<Union>c \<in> {c \<in> set rest. conn_type c = ''shape''}.
                reach_edges (graph_edges g) pool (conn_id c) (conn_shape_id c))"
         "distinct fe0 \<longrightarrow> distinct fe"
      by blast
    have "collapse_seeds g pool (c # rest) fe0 = Some fe"
      using False r(1) by simp
    moreover have "set fe = set fe0 \<union>
             (\<Union>x \<in> {x \<in> set (c # rest). conn_type x = ''shape''}.
                reach_edges (graph_edges g) pool (conn_id x) (conn_shape_id x))"
      using False r(2) by auto
    ultimately show ?thesis using r(3) by blast
  qed
qed

lemma collapse_arrow_chains_result:
  "\<exists>es. collapse_arrow_chains pool arrows = Some es \<and> distinct es \<and>
          set es = {e \<in> chain_edges pool arrows. fst e \<noteq> snd e}"
proof -
  let ?g = "build_graph arrows (\<lambda>k. [])"
  have fin: "finite (graph_edges ?g)"
    by (simp add: graph_edges_build_graph finite_arrow_links)
  from collapse_seeds_result [OF fin, of pool pool "[]"] obtain fe where
    fe: "collapse_seeds ?g pool pool [] = Some fe"
        "set fe = chain_edges pool arrows" "distinct fe"
    by (auto simp: chain_edges_def graph_edges_build_graph)
  have "collapse_arrow_chains pool arrows = Some (filter (\<lambda>edge. fst edge \<noteq> snd edge) fe)"
    by (simp add: collapse_arrow_chains_def fe(1))
  moreover have "distinct (filter (\<lambda>edge. fst edge \<noteq> snd edge) fe)"
    using fe(3) by simp
  moreover have "set (filter (\<lambda>edge. fst edge \<noteq> snd edge) fe) =
      {e \<in> chain_edges pool arrows. fst e \<noteq> snd e}"
    using fe(2) by auto
  ultimately show ?thesis by blast
qed

lemmas pool_eval =
  draw_shapes_def SHAPE_MAP_def build_connections_pool_def main_reconstruct_def arrows_eval

text \<open>The pipeline on the chain scenario, and evaluation of the traversal.\<close>

lemma chain_reconstruct:
  "main_reconstruct chain_results 0 =
     (chain_shapes, chain_pool, chain_arrows, 9)"
  by (simp add: chain_results_def chain_shapes_def chain_pool_def chain_arrows_def pool_eval)

lemmas collapse_eval =
  collapse_arrow_chains_def bfs_while.simps set_add_def Let_def

lemma chain_collapse:
  "collapse_arrow_chains chain_pool chain_arrows = Some [(Some 0, Some 1)]"
  by (simp add: chain_pool_def chain_arrows_def collapse_eval)

section \<open>The final edges\<close>

text \<open>
  Claim C6.  For every pool and all arrow connections \<open>collapse_arrow_chains\<close> returns, and the
  list of final edges it returns has no self-loop (the two shape ids of an edge differ) and
  no pair twice.
\<close>

theorem collapse_arrow_chains_no_loops_no_duplicates:
  "\<exists>final_edges. collapse_arrow_chains pool arrow_connections = Some final_edges \<and>
      distinct final_edges \<and> (\<forall>edge \<in> set final_edges. fst edge \<noteq> snd edge)"
  using collapse_arrow_chains_result [of pool arrow_connections] by auto

theorem collapse_arrow_chains_no_loops_no_duplicates_witness:
  "collapse_arrow_chains cycle_pool cycle_arrows = Some [] \<and>
   collapse_arrow_chains chain_pool (chain_arrows @ chain_arrows) = Some [(Some 0, Some 1)] \<and>
   (\<exists>final_edges. collapse_arrow_chains chain_pool (chain_arrows @ chain_arrows) = Some final_edges \<and>
      distinct final_edges \<and> (\<forall>edge \<in> set final_edges. fst edge \<noteq> snd edge))"
  using collapse_arrow_chains_no_loops_no_duplicates [of chain_pool "chain_arrows @ chain_arrows"]
  by (simp add: chain_pool_def chain_arrows_def cycle_pool_def cycle_arrows_def collapse_eval)

lemma get_node_by_id_distinct:
  "distinct (map conn_id pool) \<Longrightarrow> c \<in> set pool \<Longrightarrow> get_node_by_id (conn_id c) pool = Some c"
  by (induction pool) auto

text \<open>
  Claim C1.  In a pool whose node ids are distinct, when a chain of arrow links leads from
  an anchor node of one shape to an anchor node of another shape, through any nodes,
  floating or not, \<open>collapse_arrow_chains\<close> returns the edge from the first shape to the
  second.  The spec's scenario is an instance: anchors at \<open>(0, 0)\<close> and \<open>(200, 0)\<close>, a
  floating node at \<open>(100, 0)\<close>, two arrows, neither spanning both shapes.
\<close>

theorem collapse_arrow_chains_reaches:
  assumes ids: "distinct (map conn_id pool)"
    and a: "a \<in> set pool" "conn_type a = ''shape''"
    and b: "b \<in> set pool" "conn_type b = ''shape''"
    and chain: "(conn_id a, conn_id b) \<in> (arrow_links arrow_connections)\<^sup>*"
    and other: "conn_shape_id a \<noteq> conn_shape_id b"
  shows "\<exists>final_edges. collapse_arrow_chains pool arrow_connections = Some final_edges \<and>
           (conn_shape_id a, conn_shape_id b) \<in> set final_edges"
proof -
  have look_b: "get_node_by_id (conn_id b) pool = Some b"
    using ids b(1) by (rule get_node_by_id_distinct)
  have look_a: "get_node_by_id (conn_id a) pool = Some a"
    using ids a(1) by (rule get_node_by_id_distinct)
  have "conn_id b \<noteq> conn_id a"
  proof
    assume "conn_id b = conn_id a"
    with look_a look_b have "a = b" by simp
    with other show False by simp
  qed
  with look_b have "(conn_shape_id a, conn_shape_id b) \<in>
      reach_edges (arrow_links arrow_connections) pool (conn_id a) (conn_shape_id a)"
    using chain b(2) by (auto simp: reach_edges_def)
  then have "(conn_shape_id a, conn_shape_id b) \<in> chain_edges pool arrow_connections"
    using a by (auto simp: chain_edges_def)
  with other collapse_arrow_chains_result [of pool arrow_connections] show ?thesis by auto
qed

theorem collapse_arrow_chains_reaches_witness:
  "main_reconstruct chain_results 0 =
     (chain_shapes, chain_pool, chain_arrows, 9) \<and>
   distinct (map conn_id chain_pool) \<and>
   chain_pool ! 3 \<in> set chain_pool \<and> conn_type (chain_pool ! 3) = ''shape'' \<and>
   conn_point (chain_pool ! 3) = (0, 0) \<and> conn_shape_id (chain_pool ! 3) = Some 0 \<and>
   chain_pool ! 6 \<in> set chain_pool \<and> conn_type (chain_pool ! 6) = ''shape'' \<and>
   conn_point (chain_pool ! 6) = (200, 0) \<and> conn_shape_id (chain_pool ! 6) = Some 1 \<and>
   conn_type (chain_pool ! 8) = ''arrow'' \<and> conn_point (chain_pool ! 8) = (100, 0) \<and>
   (conn_id (chain_pool ! 3), conn_id (chain_pool ! 6)) \<in> (arrow_links chain_arrows)\<^sup>* \<and>
   (conn_id (chain_pool ! 3), conn_id (chain_pool ! 6)) \<notin> arrow_links chain_arrows \<and>
   (\<exists>final_edges. collapse_arrow_chains chain_pool chain_arrows = Some final_edges \<and>
      (Some 0, Some 1) \<in> set final_edges)"
proof -
  have ids: "distinct (map conn_id chain_pool)"
    by (simp add: chain_pool_def)
  have a: "chain_pool ! 3 \<in> set chain_pool" "conn_type (chain_pool ! 3) = ''shape''"
    by (simp_all add: chain_pool_def)
  have b: "chain_pool ! 6 \<in> set chain_pool" "conn_type (chain_pool ! 6) = ''shape''"
    by (simp_all add: chain_pool_def)
  have links: "arrow_links chain_arrows = {(3, 8), (8, 6)}"
    by (auto simp: arrow_links_def chain_arrows_def chain_pool_def)
  have "(3, 8) \<in> (arrow_links chain_arrows)\<^sup>*" "(8, 6) \<in> arrow_links chain_arrows"
    by (auto simp: links)
  then have "(3, 6) \<in> (arrow_links chain_arrows)\<^sup>*"
    by (rule rtrancl_into_rtrancl)
  then have chain: "(conn_id (chain_pool ! 3), conn_id (chain_pool ! 6)) \<in> (arrow_links chain_arrows)\<^sup>*"
    by (simp add: chain_pool_def)
  have other: "conn_shape_id (chain_pool ! 3) \<noteq> conn_shape_id (chain_pool ! 6)"
    by (simp add: chain_pool_def)
  have direct: "(conn_id (chain_pool ! 3), conn_id (chain_pool ! 6)) \<notin> arrow_links chain_arrows"
    by (simp add: links) (simp add: chain_pool_def)
  have vals: "conn_point (chain_pool ! 3) = (0, 0)" "conn_shape_id (chain_pool ! 3) = Some 0"
    "conn_point (chain_pool ! 6) = (200, 0)" "conn_shape_id (chain_pool ! 6) = Some 1"
    "conn_type (chain_pool ! 8) = ''arrow''" "conn_point (chain_pool ! 8) = (100, 0)"
    by (simp_all add: chain_pool_def)
  from collapse_arrow_chains_reaches [OF ids a b chain other]
  show ?thesis
    using chain_reconstruct ids a b chain direct vals by simp
qed

section \<open>Termination\<close>

text \<open>\<open>visited\<close> only grows, and an expanded id is in it from the next iteration on.\<close>

lemma bfs_body_visited_mono: "set (fst st) \<subseteq> set (fst (bfs_body g pool s ss st))"
proof -
  obtain vis q fe where st: "st = (vis, q, fe)" by (cases st)
  show ?thesis
    by (cases q) (auto simp: st Let_def set_set_add)
qed

lemma bfs_funpow_visited_mono:
  "i \<le> j \<Longrightarrow>
   set (fst ((bfs_body g pool s ss ^^ i) st)) \<subseteq> set (fst ((bfs_body g pool s ss ^^ j) st))"
proof (induction j)
  case 0
  then show ?case by simp
next
  case (Suc j)
  show ?case
  proof (cases "i = Suc j")
    case True
    then show ?thesis by simp
  next
    case False
    with Suc.prems have "i \<le> j" by simp
    from Suc.IH [OF this] bfs_body_visited_mono [of "(bfs_body g pool s ss ^^ j) st" g pool s ss]
    show ?thesis by auto
  qed
qed

lemma bfs_expands_visited:
  assumes "bfs_expands st"
  shows "hd (fst (snd st)) \<in> set (fst (bfs_body g pool s ss st))"
proof -
  obtain vis q fe where st: "st = (vis, q, fe)" by (cases st)
  with assms obtain c q' where q: "q = c # q'" "c \<notin> set vis"
    by (cases q) (auto simp: bfs_expands_def)
  then show ?thesis by (simp add: st Let_def set_set_add)
qed

lemma bfs_expands_once:
  assumes "i < j"
    and "bfs_expands ((bfs_body g pool s ss ^^ i) st)"
    and "bfs_expands ((bfs_body g pool s ss ^^ j) st)"
  shows "hd (fst (snd ((bfs_body g pool s ss ^^ i) st))) \<noteq>
         hd (fst (snd ((bfs_body g pool s ss ^^ j) st)))"
proof -
  let ?st = "\<lambda>k. (bfs_body g pool s ss ^^ k) st"
  have "hd (fst (snd (?st i))) \<in> set (fst (?st (Suc i)))"
    using bfs_expands_visited [OF assms(2), of g pool s ss] by simp
  moreover have "set (fst (?st (Suc i))) \<subseteq> set (fst (?st j))"
    using assms(1) by (intro bfs_funpow_visited_mono) simp
  moreover have "hd (fst (snd (?st j))) \<notin> set (fst (?st j))"
    using assms(3) by (simp add: bfs_expands_def)
  ultimately show ?thesis by auto
qed

text \<open>
  Claim C9.  For every pool and all arrow connections, cyclic or not, \<open>collapse_arrow_chains\<close>
  returns; the \<open>while\<close> loop of a traversal exits from every state after finitely many
  iterations, in particular from the initial state \<open>([], [start_id], final_edges)\<close> of a seed;
  and no id is expanded in two different iterations of one traversal.
\<close>

theorem bfs_while_terminates:
  "(\<exists>final_edges. collapse_arrow_chains pool arrow_connections = Some final_edges) \<and>
   (\<exists>n. bfs_while (build_graph arrow_connections (\<lambda>k. [])) pool start_id start_shape st =
           Some ((bfs_body (build_graph arrow_connections (\<lambda>k. [])) pool start_id start_shape ^^ n) st) \<and>
        fst (snd ((bfs_body (build_graph arrow_connections (\<lambda>k. [])) pool start_id start_shape ^^ n) st)) = []) \<and>
   (\<forall>i j. i < j \<and>
      bfs_expands ((bfs_body (build_graph arrow_connections (\<lambda>k. [])) pool start_id start_shape ^^ i) st) \<and>
      bfs_expands ((bfs_body (build_graph arrow_connections (\<lambda>k. [])) pool start_id start_shape ^^ j) st) \<longrightarrow>
      hd (fst (snd ((bfs_body (build_graph arrow_connections (\<lambda>k. [])) pool start_id start_shape ^^ i) st))) \<noteq>
      hd (fst (snd ((bfs_body (build_graph arrow_connections (\<lambda>k. [])) pool start_id start_shape ^^ j) st))))"
proof (intro conjI)
  let ?g = "build_graph arrow_connections (\<lambda>k. [])"
  show "\<exists>final_edges. collapse_arrow_chains pool arrow_connections = Some final_edges"
    using collapse_arrow_chains_result [of pool arrow_connections] by blast
  have fin: "finite (graph_edges ?g)"
    by (simp add: graph_edges_build_graph finite_arrow_links)
  from bfs_while_iterates [OF fin, of pool start_id start_shape st]
  show "\<exists>n. bfs_while ?g pool start_id start_shape st =
           Some ((bfs_body ?g pool start_id start_shape ^^ n) st) \<and>
        fst (snd ((bfs_body ?g pool start_id start_shape ^^ n) st)) = []"
    by blast
  show "\<forall>i j. i < j \<and>
      bfs_expands ((bfs_body ?g pool start_id start_shape ^^ i) st) \<and>
      bfs_expands ((bfs_body ?g pool start_id start_shape ^^ j) st) \<longrightarrow>
      hd (fst (snd ((bfs_body ?g pool start_id start_shape ^^ i) st))) \<noteq>
      hd (fst (snd ((bfs_body ?g pool start_id start_shape ^^ j) st)))"
    using bfs_expands_once by blast
qed

theorem bfs_while_terminates_witness:
  "(cycle_pool ! 0, cycle_pool ! 1) \<in> (\<lambda>a. (arrow_tail a, arrow_tip a)) ` set cycle_arrows \<and>
   (cycle_pool ! 1, cycle_pool ! 0) \<in> (\<lambda>a. (arrow_tail a, arrow_tip a)) ` set cycle_arrows \<and>
   bfs_while (build_graph cycle_arrows (\<lambda>k. [])) cycle_pool 0 (Some 0) ([], [0], []) =
     Some ([0, 1], [], []) \<and>
   collapse_arrow_chains cycle_pool cycle_arrows = Some [] \<and>
   (\<exists>n. bfs_while (build_graph cycle_arrows (\<lambda>k. [])) cycle_pool 0 (Some 0) ([], [0], []) =
           Some ((bfs_body (build_graph cycle_arrows (\<lambda>k. [])) cycle_pool 0 (Some 0) ^^ n) ([], [0], [])) \<and>
        fst (snd ((bfs_body (build_graph cycle_arrows (\<lambda>k. [])) cycle_pool 0 (Some 0) ^^ n) ([], [0], []))) = [])"
  using bfs_while_terminates [of cycle_pool cycle_arrows 0 "Some 0" "([], [0], [])"]
  by (simp add: cycle_pool_def cycle_arrows_def collapse_eval)

section \<open>Shape ids in the pipeline\<close>

text \<open>\<open>draw_shapes\<close> numbers the shapes 0, 1, 2, ... in the order of the list it returns.\<close>

lemma draw_shapes_box_ids:
  assumes "map fst sp = map int [0..<length sp]"
  shows "map fst (draw_shapes_box b sp) = map int [0..<length (draw_shapes_box b sp)]"
proof -
  obtain cl x1 y1 x2 y2 where b: "b = (cl, x1, y1, x2, y2)" by (cases b)
  show ?thesis
    using assms by (auto simp: b Let_def split: option.splits)
qed

lemma fold_draw_shapes_box_ids:
  "map fst sp = map int [0..<length sp] \<Longrightarrow>
   map fst (fold draw_shapes_box bs sp) = map int [0..<length (fold draw_shapes_box bs sp)]"
  by (induction bs arbitrary: sp) (simp_all add: draw_shapes_box_ids)

lemma fold_results_ids:
  "map fst sp = map int [0..<length sp] \<Longrightarrow>
   map fst (fold (\<lambda>result sp. fold draw_shapes_box result sp) results sp) =
     map int [0..<length (fold (\<lambda>result sp. fold draw_shapes_box result sp) results sp)]"
  by (induction results arbitrary: sp) (simp_all add: fold_draw_shapes_box_ids)

lemma draw_shapes_ids:
  "map fst (draw_shapes results) = map int [0..<length (draw_shapes results)]"
  unfolding draw_shapes_def by (rule fold_results_ids) simp

lemma draw_shapes_id_range:
  assumes "s \<in> set (draw_shapes results)"
  shows "0 \<le> fst s \<and> fst s < int (length (draw_shapes results))"
proof -
  from assms have "fst s \<in> set (map fst (draw_shapes results))" by simp
  then have "fst s \<in> set (map int [0..<length (draw_shapes results)])"
    by (simp only: draw_shapes_ids [symmetric])
  then show ?thesis by auto
qed

text \<open>
  The pool of a run only has nodes of type \<open>shape\<close> for the shapes of the run: seeding
  gives a node the id of its shape, and snapping adds nodes of type \<open>arrow\<close> only.
\<close>

lemma build_connections_sides_below:
  "pool_shapes_below n pool \<Longrightarrow> 0 \<le> sid \<Longrightarrow> sid < n \<Longrightarrow>
   pool_shapes_below n (fst (build_connections_sides sid ecs (pool, c)))"
proof (induction ecs arbitrary: pool c)
  case Nil
  then show ?case by simp
next
  case (Cons e ecs)
  obtain sd pt where e: "e = (sd, pt)" by (cases e)
  let ?node = "\<lparr>conn_id = c, conn_point = pt, conn_type = ''shape'', conn_shape_id = Some sid,
                conn_side = Some sd\<rparr>"
  have "pool_shapes_below n (pool @ [?node])"
    using Cons.prems by (auto simp: pool_shapes_below_def)
  from Cons.IH [OF this Cons.prems(2,3)] show ?case
    by (simp add: e get_next_connection_id_def)
qed

lemma shape_cases:
  fixes s :: shape
  obtains sid cl x1 y1 w h cx cy ecs where "s = (sid, cl, x1, y1, w, h, cx, cy, ecs)"
  by (cases s) (metis prod_cases3)

lemma build_connections_shapes_below:
  "pool_shapes_below n (fst st) \<Longrightarrow> \<forall>s \<in> set shapes. 0 \<le> fst s \<and> fst s < n \<Longrightarrow>
   pool_shapes_below n (fst (build_connections_shapes shapes st))"
proof (induction shapes arbitrary: st)
  case Nil
  then show ?case by simp
next
  case (Cons s shapes)
  obtain sid cl x1 y1 w h cx cy ecs where s: "s = (sid, cl, x1, y1, w, h, cx, cy, ecs)"
    using shape_cases by blast
  obtain pool c where st: "st = (pool, c)" by (cases st)
  have "pool_shapes_below n (fst (build_connections_sides sid ecs (pool, c)))"
    using Cons.prems by (intro build_connections_sides_below) (simp_all add: s st)
  from Cons.IH [OF this] Cons.prems(2) show ?case
    by (simp add: s st)
qed

lemma build_connections_pool_below:
  "pool_shapes_below (int (length (draw_shapes results)))
     (fst (build_connections_pool (draw_shapes results) counter))"
  unfolding build_connections_pool_def
  by (rule build_connections_shapes_below)
     (simp_all add: pool_shapes_below_def draw_shapes_id_range)

lemma find_nearest_connection_below:
  assumes "pool_shapes_below n pool"
  shows "pool_shapes_below n (fst (snd (find_nearest_connection candidate pool t c)))"
  using assms
  by (auto simp: find_nearest_connection_def get_next_connection_id_def Let_def
      pool_shapes_below_def split: option.splits)

lemma process_arrows_below:
  "pool_shapes_below n pool \<Longrightarrow>
   pool_shapes_below n (fst (snd (process_arrows arrows (acc, pool, c))))"
proof (induction arrows arbitrary: acc pool c)
  case Nil
  then show ?case by simp
next
  case (Cons b rest)
  show ?case
  proof (cases "arrow_candidates b")
    case None
    with Cons show ?thesis by simp
  next
    case (Some cands)
    obtain tail_cand tip_cand where cands: "cands = (tail_cand, tip_cand)" by (cases cands)
    obtain t p1 c1 where r1: "find_nearest_connection tail_cand pool 50 c = (t, p1, c1)"
      by (cases "find_nearest_connection tail_cand pool 50 c")
    obtain h p2 c2 where r2: "find_nearest_connection tip_cand p1 50 c1 = (h, p2, c2)"
      by (cases "find_nearest_connection tip_cand p1 50 c1")
    obtain cl ax1 ay1 ax2 ay2 where b: "b = (cl, ax1, ay1, ax2, ay2)" by (cases b)
    have "pool_shapes_below n p1"
      using find_nearest_connection_below [OF Cons.prems, of tail_cand 50 c] by (simp add: r1)
    then have "pool_shapes_below n p2"
      using find_nearest_connection_below [of n p1 tip_cand 50 c1] by (simp add: r2)
    from Cons.IH [OF this] show ?thesis
      using Some by (simp add: cands r1 r2 b)
  qed
qed

lemma main_reconstruct_below:
  assumes "main_reconstruct results counter = (shape_positions, pool, arrows, counter')"
  shows "pool_shapes_below (int (length shape_positions)) pool"
    and "shape_positions = draw_shapes results"
proof -
  obtain pool0 c1 where p0: "build_connections_pool (draw_shapes results) counter = (pool0, c1)"
    by (cases "build_connections_pool (draw_shapes results) counter")
  obtain ar pl c2 where pa: "process_arrow_detections results pool0 c1 = (ar, pl, c2)"
    by (cases "process_arrow_detections results pool0 c1")
  from assms show sp: "shape_positions = draw_shapes results"
    by (simp add: main_reconstruct_def p0 pa)
  from assms have pl: "pool = pl"
    by (simp add: main_reconstruct_def p0 pa)
  have "pool_shapes_below (int (length (draw_shapes results))) pool0"
    using build_connections_pool_below [of results counter] by (simp add: p0)
  from process_arrows_below [OF this, of "arrow_detections_of results" "[]" c1]
  show "pool_shapes_below (int (length shape_positions)) pool"
    using pa by (simp add: process_arrow_detections_def sp pl)
qed

text \<open>Hence every candidate edge of a run joins two shape ids of the run.\<close>

lemma get_node_by_id_in_pool: "get_node_by_id v pool = Some node \<Longrightarrow> node \<in> set pool"
  by (induction pool) (auto split: if_splits)

lemma chain_edges_below:
  assumes "pool_shapes_below n pool" and "e \<in> chain_edges pool arrows"
  shows "edge_below n e"
proof -
  from assms(2) obtain c v node where
    c: "c \<in> set pool" "conn_type c = ''shape''"
    and node: "get_node_by_id v pool = Some node" "conn_type node = ''shape''"
    and e: "e = (conn_shape_id c, conn_shape_id node)"
    by (auto simp: chain_edges_def reach_edges_def)
  from node(1) have "node \<in> set pool" by (rule get_node_by_id_in_pool)
  with assms(1) node(2) obtain j where j: "conn_shape_id node = Some j" "0 \<le> j" "j < n"
    unfolding pool_shapes_below_def by blast
  from assms(1) c obtain i where i: "conn_shape_id c = Some i" "0 \<le> i" "i < n"
    unfolding pool_shapes_below_def by blast
  from i j e show ?thesis
    by (simp add: edge_below_def)
qed

section \<open>The matrix\<close>

text \<open>
  With edges between ids below \<open>n\<close>, the loop of \<open>build_nxn_matrix\<close> raises nothing and sets
  exactly the cells of the edges.
\<close>

lemma py_index_below: "0 \<le> i \<Longrightarrow> i < int n \<Longrightarrow> py_index n (Some i) = Inr (nat i)"
  by (simp add: py_index_def)

lemma matrix_set_edges_below:
  assumes "\<forall>e \<in> set es. edge_below (int n) e"
    and "length m = n" and "\<forall>i<n. length (m ! i) = n"
  shows "\<exists>m'. matrix_set_edges es m = Inr m' \<and> length m' = n \<and>
           (\<forall>i<n. length (m' ! i) = n \<and>
              (\<forall>j<n. m' ! i ! j = (if (Some (int i), Some (int j)) \<in> set es then 1 else m ! i ! j)))"
  using assms
proof (induction es arbitrary: m)
  case Nil
  then show ?case by simp
next
  case (Cons e es)
  from Cons.prems(1) obtain i0 j0 where e: "e = (Some i0, Some j0)"
    and r: "0 \<le> i0" "i0 < int n" "0 \<le> j0" "j0 < int n"
    by (auto simp: edge_below_def)
  let ?r = "nat i0" and ?c = "nat j0"
  let ?m1 = "m [?r := (m ! ?r) [?c := 1]]"
  have rn: "?r < n" "?c < n" using r by simp_all
  have len1: "length ?m1 = n" using Cons.prems(2) by simp
  have rows1: "\<forall>i<n. length (?m1 ! i) = n"
    using Cons.prems(2,3) rn by (auto simp: nth_list_update)
  have "\<forall>e \<in> set es. edge_below (int n) e" using Cons.prems(1) by simp
  from Cons.IH [OF this len1 rows1] obtain m' where
    m': "matrix_set_edges es ?m1 = Inr m'" "length m' = n"
        "\<forall>i<n. length (m' ! i) = n \<and>
              (\<forall>j<n. m' ! i ! j = (if (Some (int i), Some (int j)) \<in> set es then 1 else ?m1 ! i ! j))"
    by blast
  have step: "matrix_set_edges (e # es) m = Inr m'"
    using m'(1) rn r Cons.prems(2,3) by (simp add: e py_index_below)
  have cell: "?m1 ! i ! j = (if (Some (int i), Some (int j)) = e then 1 else m ! i ! j)"
    if "i < n" "j < n" for i j
  proof -
    have "(Some (int i), Some (int j)) = e \<longleftrightarrow> i = ?r \<and> j = ?c"
      using r by (auto simp: e)
    then show ?thesis
      using that Cons.prems(2,3) rn by (auto simp: nth_list_update)
  qed
  have "\<forall>i<n. length (m' ! i) = n \<and>
          (\<forall>j<n. m' ! i ! j = (if (Some (int i), Some (int j)) \<in> set (e # es) then 1 else m ! i ! j))"
    using m'(3) cell by auto
  with step m'(2) show ?case by blast
qed

lemma build_nxn_matrix_below:
  assumes "\<forall>e \<in> set es. edge_below (int (length sp)) e"
  shows "\<exists>matrix. build_nxn_matrix sp es = Inr (matrix, map shape_mapping_of sp) \<and>
           length matrix = length sp \<and>
           (\<forall>i<length sp. length (matrix ! i) = length sp \<and>
              (\<forall>j<length sp. matrix ! i ! j =
                 (if (Some (int i), Some (int j)) \<in> set es then 1 else 0)))"
proof -
  let ?n = "length sp"
  from matrix_set_edges_below [OF assms, of "replicate ?n (replicate ?n 0)"]
  obtain m' where m': "matrix_set_edges es (replicate ?n (replicate ?n 0)) = Inr m'"
    "length m' = ?n"
    "\<forall>i<?n. length (m' ! i) = ?n \<and>
        (\<forall>j<?n. m' ! i ! j = (if (Some (int i), Some (int j)) \<in> set es then 1
                               else replicate ?n (replicate ?n 0) ! i ! j))"
    by auto
  have "build_nxn_matrix sp es = Inr (m', map shape_mapping_of sp)"
    by (simp add: build_nxn_matrix_def m'(1))
  moreover have "\<forall>i<?n. length (m' ! i) = ?n \<and>
        (\<forall>j<?n. m' ! i ! j = (if (Some (int i), Some (int j)) \<in> set es then 1 else 0))"
    using m'(3) by simp
  ultimately show ?thesis using m'(2) by blast
qed

lemma main_reconstruct_edges:
  assumes "main_reconstruct results counter = (shape_positions, pool, arrows, counter')"
  shows "\<exists>final_edges. collapse_arrow_chains pool arrows = Some final_edges \<and> distinct final_edges \<and>
           (\<forall>e \<in> set final_edges. edge_below (int (length shape_positions)) e)"
proof -
  from collapse_arrow_chains_result [of pool arrows] obtain es where
    es: "collapse_arrow_chains pool arrows = Some es" "distinct es"
        "set es = {e \<in> chain_edges pool arrows. fst e \<noteq> snd e}"
    by blast
  have "\<forall>e \<in> set es. edge_below (int (length shape_positions)) e"
    using chain_edges_below [OF main_reconstruct_below(1) [OF assms]] es(3) by blast
  with es(1,2) show ?thesis by blast
qed

text \<open>
  Claim C10.  In every run of the pipeline, from any detector results and any value of the
  counter, the shapes carry the ids 0 to N - 1 in order (N the number of shapes), every edge
  \<open>(i, j)\<close> returned by \<open>collapse_arrow_chains\<close> has \<open>0 \<le> i < N\<close> and \<open>0 \<le> j < N\<close>, and
  \<open>build_nxn_matrix\<close> raises no IndexError (and no TypeError) on these edges.
\<close>

theorem final_edges_in_range:
  assumes "main_reconstruct results counter = (shape_positions, pool, arrow_connections, counter')"
  shows "map fst shape_positions = map int [0..<length shape_positions] \<and>
         (\<exists>final_edges. collapse_arrow_chains pool arrow_connections = Some final_edges \<and>
            (\<forall>edge \<in> set final_edges. \<exists>i j. edge = (Some i, Some j) \<and>
               0 \<le> i \<and> i < int (length shape_positions) \<and>
               0 \<le> j \<and> j < int (length shape_positions)) \<and>
            (\<exists>matrix_info. build_nxn_matrix shape_positions final_edges = Inr matrix_info))"
proof
  show "map fst shape_positions = map int [0..<length shape_positions]"
    using main_reconstruct_below(2) [OF assms] draw_shapes_ids by simp
  from main_reconstruct_edges [OF assms] obtain es where
    es: "collapse_arrow_chains pool arrow_connections = Some es"
        "\<forall>e \<in> set es. edge_below (int (length shape_positions)) e"
    by blast
  from build_nxn_matrix_below [OF es(2)]
  have "\<exists>matrix_info. build_nxn_matrix shape_positions es = Inr matrix_info" by blast
  with es show "\<exists>final_edges. collapse_arrow_chains pool arrow_connections = Some final_edges \<and>
            (\<forall>edge \<in> set final_edges. \<exists>i j. edge = (Some i, Some j) \<and>
               0 \<le> i \<and> i < int (length shape_positions) \<and>
               0 \<le> j \<and> j < int (length shape_positions)) \<and>
            (\<exists>matrix_info. build_nxn_matrix shape_positions final_edges = Inr matrix_info)"
    unfolding edge_below_def by blast
qed

text \<open>
  Claim C5.  In every run of the pipeline, the matrix built by \<open>build_nxn_matrix\<close> from the
  shapes and the final edges of \<open>collapse_arrow_chains\<close> has N rows of length N, its cell
  \<open>(i, j)\<close> is 1 if \<open>(i, j)\<close> is a final edge and 0 otherwise, and row and column \<open>i\<close> belong
  to the shape whose id is \<open>i\<close>: the shape at position \<open>i\<close> of the list and the entry at
  position \<open>i\<close> of the shape mapping both carry the id \<open>i\<close>.
\<close>

theorem build_nxn_matrix_edges:
  assumes "main_reconstruct results counter = (shape_positions, pool, arrow_connections, counter')"
  shows "\<exists>final_edges matrix.
           collapse_arrow_chains pool arrow_connections = Some final_edges \<and>
           build_nxn_matrix shape_positions final_edges =
             Inr (matrix, map shape_mapping_of shape_positions) \<and>
           length matrix = length shape_positions \<and>
           (\<forall>i<length shape_positions.
              length (matrix ! i) = length shape_positions \<and>
              fst (shape_positions ! i) = int i \<and>
              mapping_id (map shape_mapping_of shape_positions ! i) = int i \<and>
              (\<forall>j<length shape_positions.
                 matrix ! i ! j = (if (Some (int i), Some (int j)) \<in> set final_edges then 1 else 0)))"
proof -
  from main_reconstruct_edges [OF assms] obtain es where
    es: "collapse_arrow_chains pool arrow_connections = Some es"
        "\<forall>e \<in> set es. edge_below (int (length shape_positions)) e"
    by blast
  from build_nxn_matrix_below [OF es(2)] obtain matrix where
    m: "build_nxn_matrix shape_positions es = Inr (matrix, map shape_mapping_of shape_positions)"
       "length matrix = length shape_positions"
       "\<forall>i<length shape_positions. length (matrix ! i) = length shape_positions \<and>
              (\<forall>j<length shape_positions. matrix ! i ! j =
                 (if (Some (int i), Some (int j)) \<in> set es then 1 else 0))"
    by blast
  have ids: "map fst shape_positions = map int [0..<length shape_positions]"
    using main_reconstruct_below(2) [OF assms] draw_shapes_ids by simp
  have id: "fst (shape_positions ! i) = int i" if "i < length shape_positions" for i
  proof -
    have "fst (shape_positions ! i) = map fst shape_positions ! i" using that by simp
    also have "\<dots> = int i" using that by (simp only: ids) simp
    finally show ?thesis .
  qed
  have mid: "mapping_id (shape_mapping_of s) = fst s" for s
    by (cases s rule: shape_cases) simp
  have "\<forall>i<length shape_positions.
              length (matrix ! i) = length shape_positions \<and>
              fst (shape_positions ! i) = int i \<and>
              mapping_id (map shape_mapping_of shape_positions ! i) = int i \<and>
              (\<forall>j<length shape_positions.
                 matrix ! i ! j = (if (Some (int i), Some (int j)) \<in> set es then 1 else 0))"
    using m(3) id mid by simp
  with es(1) m(1,2) show ?thesis by blast
qed

lemmas matrix_eval =
  build_nxn_matrix_def py_index_def mapping_name_of_class_def SHAPE_NAME_MAP_def

lemma chain_matrix:
  "build_nxn_matrix chain_shapes [(Some 0, Some 1)] =
     Inr ([[0, 1], [0, 0]],
          [\<lparr>mapping_id = 0, mapping_class_id = 7, mapping_name = Some ''Process'',
            mapping_bbox = [- 40, - 20, 40, 40], mapping_center = [- 20, 0]\<rparr>,
           \<lparr>mapping_id = 1, mapping_class_id = 7, mapping_name = Some ''Process'',
            mapping_bbox = [200, - 20, 40, 40], mapping_center = [220, 0]\<rparr>])"
  by (simp add: chain_shapes_def matrix_eval)

theorem final_edges_in_range_witness:
  "main_reconstruct chain_results 0 = (chain_shapes, chain_pool, chain_arrows, 9) \<and>
   length chain_shapes = 2 \<and>
   collapse_arrow_chains chain_pool chain_arrows = Some [(Some 0, Some 1)] \<and>
   map fst chain_shapes = map int [0..<length chain_shapes] \<and>
   (\<exists>final_edges. collapse_arrow_chains chain_pool chain_arrows = Some final_edges \<and>
      (\<forall>edge \<in> set final_edges. \<exists>i j. edge = (Some i, Some j) \<and>
         0 \<le> i \<and> i < int (length chain_shapes) \<and> 0 \<le> j \<and> j < int (length chain_shapes)) \<and>
      (\<exists>matrix_info. build_nxn_matrix chain_shapes final_edges = Inr matrix_info))"
  using final_edges_in_range [OF chain_reconstruct] chain_reconstruct chain_collapse
  by (simp add: chain_shapes_def)

theorem build_nxn_matrix_edges_witness:
  "main_reconstruct chain_results 0 = (chain_shapes, chain_pool, chain_arrows, 9) \<and>
   collapse_arrow_chains chain_pool chain_arrows = Some [(Some 0, Some 1)] \<and>
   build_nxn_matrix chain_shapes [(Some 0, Some 1)] =
     Inr ([[0, 1], [0, 0]], map shape_mapping_of chain_shapes) \<and>
   (\<exists>final_edges matrix.
      collapse_arrow_chains chain_pool chain_arrows = Some final_edges \<and>
      build_nxn_matrix chain_shapes final_edges = Inr (matrix, map shape_mapping_of chain_shapes) \<and>
      length matrix = length chain_shapes \<and>
      (\<forall>i<length chain_shapes.
         length (matrix ! i) = length chain_shapes \<and>
         fst (chain_shapes ! i) = int i \<and>
         mapping_id (map shape_mapping_of chain_shapes ! i) = int i \<and>
         (\<forall>j<length chain_shapes.
            matrix ! i ! j = (if (Some (int i), Some (int j)) \<in> set final_edges then 1 else 0))))"
proof -
  have "build_nxn_matrix chain_shapes [(Some 0, Some 1)] =
     Inr ([[0, 1], [0, 0]], map shape_mapping_of chain_shapes)"
    using chain_matrix by (simp add: chain_shapes_def matrix_eval)
  with build_nxn_matrix_edges [OF chain_reconstruct] chain_reconstruct chain_collapse
  show ?thesis by blast
qed

section \<open>Two runs and the global counter\<close>

text \<open>
  Seeding and snapping never read an id: started \<open>d\<close> later, they build the same pool and
  the same arrow connections with every id \<open>d\<close> larger.
\<close>

lemma shift_conn_simps [simp]:
  "conn_id (shift_conn d c) = conn_id c + d"
  "conn_point (shift_conn d c) = conn_point c"
  "conn_type (shift_conn d c) = conn_type c"
  "conn_shape_id (shift_conn d c) = conn_shape_id c"
  "conn_side (shift_conn d c) = conn_side c"
  by (simp_all add: shift_conn_def)

lemma build_connections_sides_shift:
  "build_connections_sides sid ecs (map (shift_conn d) pool, c + d) =
     (case build_connections_sides sid ecs (pool, c) of
        (pool', c') \<Rightarrow> (map (shift_conn d) pool', c' + d))"
proof (induction ecs arbitrary: pool c)
  case Nil
  show ?case by simp
next
  case (Cons e ecs)
  obtain sd pt where e: "e = (sd, pt)" by (cases e)
  let ?node = "\<lparr>conn_id = c, conn_point = pt, conn_type = ''shape'', conn_shape_id = Some sid,
                conn_side = Some sd\<rparr>"
  have "build_connections_sides sid (e # ecs) (map (shift_conn d) pool, c + d) =
        build_connections_sides sid ecs (map (shift_conn d) (pool @ [?node]), (c + 1) + d)"
    by (simp add: e get_next_connection_id_def shift_conn_def add.assoc add.commute [of d 1])
  also have "\<dots> = (case build_connections_sides sid ecs (pool @ [?node], c + 1) of
        (pool', c') \<Rightarrow> (map (shift_conn d) pool', c' + d))"
    by (rule Cons.IH)
  finally show ?case by (simp add: e get_next_connection_id_def)
qed

lemma build_connections_shapes_shift:
  "build_connections_shapes shapes (map (shift_conn d) pool, c + d) =
     (case build_connections_shapes shapes (pool, c) of
        (pool', c') \<Rightarrow> (map (shift_conn d) pool', c' + d))"
proof (induction shapes arbitrary: pool c)
  case Nil
  show ?case by simp
next
  case (Cons s shapes)
  obtain sid cl x1 y1 w h cx cy ecs where s: "s = (sid, cl, x1, y1, w, h, cx, cy, ecs)"
    by (rule shape_cases)
  obtain p1 c1 where r: "build_connections_sides sid ecs (pool, c) = (p1, c1)"
    by (cases "build_connections_sides sid ecs (pool, c)")
  show ?case
    by (simp add: s build_connections_sides_shift r Cons.IH)
qed

lemma build_connections_pool_shift:
  "build_connections_pool shapes d =
     (case build_connections_pool shapes 0 of (pool, c) \<Rightarrow> (map (shift_conn d) pool, c + d))"
  using build_connections_shapes_shift [of shapes d "[]" 0]
  by (simp add: build_connections_pool_def)

lemma nearest_scan_shift:
  "nearest_scan candidate (map (shift_conn d) pool) (map_option (shift_conn d) b, bd) =
     (case nearest_scan candidate pool (b, bd) of (b', bd') \<Rightarrow> (map_option (shift_conn d) b', bd'))"
proof (induction pool arbitrary: b bd)
  case Nil
  show ?case by simp
next
  case (Cons c pool)
  show ?case
    using Cons.IH [of "Some c"] Cons.IH [of b] by (simp add: Let_def)
qed

lemma find_nearest_connection_shift:
  "find_nearest_connection candidate (map (shift_conn d) pool) t (c + d) =
     (case find_nearest_connection candidate pool t c of
        (best, pool', c') \<Rightarrow> (shift_conn d best, map (shift_conn d) pool', c' + d))"
proof -
  obtain b bd where scan: "nearest_scan candidate pool (None, t) = (b, bd)"
    by (cases "nearest_scan candidate pool (None, t)")
  have "nearest_scan candidate (map (shift_conn d) pool) (None, t) = (map_option (shift_conn d) b, bd)"
    using nearest_scan_shift [of candidate d pool None t] by (simp add: scan)
  then show ?thesis
    by (cases b)
       (simp_all add: find_nearest_connection_def scan get_next_connection_id_def Let_def
          shift_conn_def add.assoc add.commute [of d 1])
qed

lemma process_arrows_shift:
  "process_arrows arrows (map (shift_arrow d) acc, map (shift_conn d) pool, c + d) =
     (case process_arrows arrows (acc, pool, c) of
        (acc', pool', c') \<Rightarrow> (map (shift_arrow d) acc', map (shift_conn d) pool', c' + d))"
proof (induction arrows arbitrary: acc pool c)
  case Nil
  show ?case by simp
next
  case (Cons b rest)
  show ?case
  proof (cases "arrow_candidates b")
    case None
    then show ?thesis by (simp add: Cons.IH)
  next
    case (Some cands)
    obtain tail_cand tip_cand where cands: "cands = (tail_cand, tip_cand)" by (cases cands)
    obtain t p1 c1 where r1: "find_nearest_connection tail_cand pool 50 c = (t, p1, c1)"
      by (cases "find_nearest_connection tail_cand pool 50 c")
    obtain h p2 c2 where r2: "find_nearest_connection tip_cand p1 50 c1 = (h, p2, c2)"
      by (cases "find_nearest_connection tip_cand p1 50 c1")
    obtain cl ax1 ay1 ax2 ay2 where b: "b = (cl, ax1, ay1, ax2, ay2)" by (cases b)
    let ?link = "\<lparr>arrow_class_id = cl, arrow_bbox = [ax1, ay1, ax2, ay2],
                  arrow_tail_candidate = [fst tail_cand, snd tail_cand],
                  arrow_tip_candidate = [fst tip_cand, snd tip_cand],
                  arrow_tail = t, arrow_tip = h\<rparr>"
    have s1: "find_nearest_connection tail_cand (map (shift_conn d) pool) 50 (c + d) =
        (shift_conn d t, map (shift_conn d) p1, c1 + d)"
      by (simp add: find_nearest_connection_shift r1)
    have s2: "find_nearest_connection tip_cand (map (shift_conn d) p1) 50 (c1 + d) =
        (shift_conn d h, map (shift_conn d) p2, c2 + d)"
      by (simp add: find_nearest_connection_shift r2)
    have "process_arrows (b # rest) (map (shift_arrow d) acc, map (shift_conn d) pool, c + d) =
        process_arrows rest (map (shift_arrow d) (acc @ [?link]), map (shift_conn d) p2, c2 + d)"
      using Some by (simp add: cands s1 s2 b shift_arrow_def)
    also have "\<dots> = (case process_arrows rest (acc @ [?link], p2, c2) of
        (acc', pool', c') \<Rightarrow> (map (shift_arrow d) acc', map (shift_conn d) pool', c' + d))"
      by (rule Cons.IH)
    finally show ?thesis
      using Some by (simp add: cands r1 r2 b)
  qed
qed

lemma main_reconstruct_shift:
  "main_reconstruct results d =
     (case main_reconstruct results 0 of
        (shape_positions, pool, arrows, c) \<Rightarrow>
          (shape_positions, map (shift_conn d) pool, map (shift_arrow d) arrows, c + d))"
proof -
  obtain pool0 c1 where p0: "build_connections_pool (draw_shapes results) 0 = (pool0, c1)"
    by (cases "build_connections_pool (draw_shapes results) 0")
  obtain ar pl c2 where pa: "process_arrows (arrow_detections_of results) ([], pool0, c1) = (ar, pl, c2)"
    by (cases "process_arrows (arrow_detections_of results) ([], pool0, c1)")
  have "process_arrows (arrow_detections_of results) ([], map (shift_conn d) pool0, c1 + d) =
      (map (shift_arrow d) ar, map (shift_conn d) pl, c2 + d)"
    using process_arrows_shift [of "arrow_detections_of results" d "[]" pool0 c1]
    by (simp add: pa)
  then show ?thesis
    by (simp add: main_reconstruct_def build_connections_pool_shift [of _ d] p0
        process_arrow_detections_def pa)
qed

text \<open>
  The traversal only compares ids with each other: on a mesh with every id \<open>d\<close> larger it
  visits the shifted ids in the same order and returns the same final edges.
\<close>

lemma shift_arrow_simps [simp]:
  "arrow_tail (shift_arrow d a) = shift_conn d (arrow_tail a)"
  "arrow_tip (shift_arrow d a) = shift_conn d (arrow_tip a)"
  by (simp_all add: shift_arrow_def)

lemma build_graph_shift:
  "build_graph (map (shift_arrow d) arrows) (shift_graph d g) = shift_graph d (build_graph arrows g)"
proof (induction arrows arbitrary: g)
  case Nil
  show ?case by simp
next
  case (Cons a arrows)
  let ?g' = "g (conn_id (arrow_tail a) := g (conn_id (arrow_tail a)) @ [conn_id (arrow_tip a)])"
  have upd: "(shift_graph d g)
          (conn_id (arrow_tail a) + d :=
             shift_graph d g (conn_id (arrow_tail a) + d) @ [conn_id (arrow_tip a) + d]) =
        shift_graph d ?g'"
    by (auto simp: shift_graph_def fun_eq_iff)
  have "build_graph (map (shift_arrow d) (a # arrows)) (shift_graph d g) =
        build_graph (map (shift_arrow d) arrows)
          ((shift_graph d g)
             (conn_id (arrow_tail a) + d :=
                shift_graph d g (conn_id (arrow_tail a) + d) @ [conn_id (arrow_tip a) + d]))"
    by simp
  also have "\<dots> = build_graph (map (shift_arrow d) arrows) (shift_graph d ?g')"
    by (simp only: upd)
  also have "\<dots> = shift_graph d (build_graph arrows ?g')"
    by (rule Cons.IH)
  finally show ?case by simp
qed

lemma build_graph_shift_empty:
  "build_graph (map (shift_arrow d) arrows) (\<lambda>k. []) = shift_graph d (build_graph arrows (\<lambda>k. []))"
proof -
  have "(\<lambda>k. []) = shift_graph d (\<lambda>k. [])" by (simp add: shift_graph_def)
  then show ?thesis using build_graph_shift [of d arrows "\<lambda>k. []"] by simp
qed

lemma get_node_by_id_shift:
  "get_node_by_id (v + d) (map (shift_conn d) pool) = map_option (shift_conn d) (get_node_by_id v pool)"
  by (induction pool) simp_all

lemma set_add_shift: "set_add (c + d) (map (\<lambda>v. v + d) s) = map (\<lambda>v. v + d) (set_add c s)"
  for c d :: int
  by (auto simp: set_add_def)

lemma filter_shift:
  "filter (\<lambda>n. n \<notin> (\<lambda>v. v + d) ` S) (map (\<lambda>v. v + d) xs) =
   map (\<lambda>v. v + d) (filter (\<lambda>n. n \<notin> S) xs)"
  for d :: int
  by (induction xs) auto

lemma bfs_body_shift:
  "bfs_body (shift_graph d g) (map (shift_conn d) pool) (s + d) ss (shift_state d st) =
     shift_state d (bfs_body g pool s ss st)"
proof -
  obtain vis q fe where st: "st = (vis, q, fe)" by (cases st)
  show ?thesis
  proof (cases q)
    case Nil
    then show ?thesis by (simp add: st shift_state_def)
  next
    case (Cons c q')
    have mem: "c + d \<in> (\<lambda>v. v + d) ` set vis \<longleftrightarrow> c \<in> set vis" by auto
    have g: "shift_graph d g (c + d) = map (\<lambda>v. v + d) (g c)" by (simp add: shift_graph_def)
    show ?thesis
    proof (cases "c \<in> set vis")
      case True
      then show ?thesis by (simp add: st Cons shift_state_def mem)
    next
      case False
      then show ?thesis
        by (cases "get_node_by_id c pool")
           (simp_all add: st Cons shift_state_def mem Let_def g set_add_shift filter_shift
              get_node_by_id_shift)
    qed
  qed
qed

lemma shift_state_queue: "fst (snd (shift_state d st)) = [] \<longleftrightarrow> fst (snd st) = []"
  by (cases st) (simp add: shift_state_def)

lemma bfs_while_shift:
  assumes fin: "finite (graph_edges g)"
  shows "bfs_while (shift_graph d g) (map (shift_conn d) pool) (s + d) ss (shift_state d st) =
           map_option (shift_state d) (bfs_while g pool s ss st)"
  using fin
proof (induction st rule: bfs_induct [where pool = pool and s = s and ss = ss])
  case (step st)
  show ?case
  proof (cases "fst (snd st) = []")
    case True
    then show ?thesis
      by (simp add: bfs_while.simps [of _ _ _ _ st]
          bfs_while.simps [of _ _ _ _ "shift_state d st"] shift_state_queue)
  next
    case False
    have "bfs_while (shift_graph d g) (map (shift_conn d) pool) (s + d) ss (shift_state d st) =
          bfs_while (shift_graph d g) (map (shift_conn d) pool) (s + d) ss
            (shift_state d (bfs_body g pool s ss st))"
      using False
      by (subst bfs_while.simps) (simp add: shift_state_queue bfs_body_shift)
    also have "\<dots> = map_option (shift_state d) (bfs_while g pool s ss (bfs_body g pool s ss st))"
      by (rule step [OF False])
    also have "bfs_while g pool s ss (bfs_body g pool s ss st) = bfs_while g pool s ss st"
      using False by (subst (2) bfs_while.simps) simp
    finally show ?thesis .
  qed
qed

lemma collapse_seeds_shift:
  assumes fin: "finite (graph_edges g)"
  shows "collapse_seeds (shift_graph d g) (map (shift_conn d) pool) (map (shift_conn d) seeds) fe =
           collapse_seeds g pool seeds fe"
proof (induction seeds arbitrary: fe)
  case Nil
  show ?case by simp
next
  case (Cons c seeds)
  have "bfs_while (shift_graph d g) (map (shift_conn d) pool) (conn_id c + d) (conn_shape_id c)
          ([], [conn_id c + d], fe) =
        map_option (shift_state d)
          (bfs_while g pool (conn_id c) (conn_shape_id c) ([], [conn_id c], fe))"
    using bfs_while_shift [OF fin, of d pool "conn_id c" "conn_shape_id c" "([], [conn_id c], fe)"]
    by (simp add: shift_state_def)
  moreover have "snd (snd (shift_state d st)) = snd (snd st)" for st
    by (cases st) (simp add: shift_state_def)
  ultimately show ?case
    by (cases "bfs_while g pool (conn_id c) (conn_shape_id c) ([], [conn_id c], fe)")
       (simp_all add: Cons.IH)
qed

lemma collapse_arrow_chains_shift:
  "collapse_arrow_chains (map (shift_conn d) pool) (map (shift_arrow d) arrows) =
     collapse_arrow_chains pool arrows"
proof -
  have fin: "finite (graph_edges (build_graph arrows (\<lambda>k. [])))"
    by (simp add: graph_edges_build_graph finite_arrow_links)
  show ?thesis
    by (simp add: collapse_arrow_chains_def build_graph_shift_empty collapse_seeds_shift [OF fin])
qed

text \<open>
  Claim C2, as the code has it.  A run of the pipeline is a function of the detector results,
  the OCR texts and the value of the global counter when it starts.  Started at the value
  \<open>counter\<close> instead of 0, it produces the same matrix document and the same chart document
  except that every connection-node id in it is \<open>counter\<close> larger, and it leaves the counter
  \<open>counter\<close> higher.  Two runs from the same counter value, as in two fresh processes,
  therefore produce equal documents.
\<close>

theorem main_documents_counter_shift:
  "main_documents results ocr_dict counter =
     map_option
       (\<lambda>(chart, matrix_info, counter'). (shift_chart counter chart, matrix_info, counter' + counter))
       (main_documents results ocr_dict 0)"
proof -
  obtain sp pool arrows c where r: "main_reconstruct results 0 = (sp, pool, arrows, c)"
    by (cases "main_reconstruct results 0") auto
  have r': "main_reconstruct results counter =
      (sp, map (shift_conn counter) pool, map (shift_arrow counter) arrows, c + counter)"
    by (simp add: main_reconstruct_shift [of results counter] r)
  show ?thesis
    by (cases "collapse_arrow_chains pool arrows")
       (simp_all add: main_documents_def r r' collapse_arrow_chains_shift build_chart_json_def
          shift_chart_def)
qed

text \<open>
  The chain scenario run twice in one process: the first run starts at 0 and leaves the
  counter at 9, where the second starts.  The connection-node ids of the two chart
  documents differ.
\<close>

lemma chain_documents:
  "main_documents chain_results ocr_dict 0 =
     Some (build_chart_json chain_shapes [(Some 0, Some 1)] chain_arrows ocr_dict,
           build_nxn_matrix chain_shapes [(Some 0, Some 1)], 9)"
  by (simp add: main_documents_def chain_reconstruct chain_collapse)

lemma chain_documents_again:
  "main_documents chain_results ocr_dict 9 =
     Some (build_chart_json chain_shapes [(Some 0, Some 1)] (map (shift_arrow 9) chain_arrows) ocr_dict,
           build_nxn_matrix chain_shapes [(Some 0, Some 1)], 18)"
  by (simp add: main_documents_def main_reconstruct_shift [of chain_results 9] chain_reconstruct
      collapse_arrow_chains_shift chain_collapse)

theorem main_documents_rerun_counterexample:
  "map_option (\<lambda>(chart, matrix_info, counter'). (chart_connection_ids chart, counter'))
     (main_documents chain_results Map.empty 0) = Some ([(3, 8), (8, 6)], 9) \<and>
   map_option (\<lambda>(chart, matrix_info, counter'). (chart_connection_ids chart, counter'))
     (main_documents chain_results Map.empty 9) = Some ([(12, 17), (17, 15)], 18) \<and>
   map_option fst (main_documents chain_results Map.empty 0) \<noteq>
   map_option fst (main_documents chain_results Map.empty 9)"
  by (simp add: chain_documents chain_documents_again chart_connection_ids_def build_chart_json_def
      chain_arrows_def chain_pool_def shift_arrow_def shift_conn_def)

theorem main_documents_counter_shift_witness:
  "map_option (fst \<circ> snd) (main_documents chain_results Map.empty 0) =
     Some (build_nxn_matrix chain_shapes [(Some 0, Some 1)]) \<and>
   map_option (fst \<circ> snd) (main_documents chain_results Map.empty 9) =
     Some (build_nxn_matrix chain_shapes [(Some 0, Some 1)]) \<and>
   map_option (\<lambda>(chart, matrix_info, counter'). (chart_connection_ids chart, counter'))
     (main_documents chain_results Map.empty 9) = Some ([(3 + 9, 8 + 9), (8 + 9, 6 + 9)], 9 + 9)"
  using main_documents_counter_shift [of chain_results Map.empty 9]
  by (simp add: chain_documents chart_connection_ids_def build_chart_json_def shift_chart_def
      chain_arrows_def chain_pool_def shift_arrow_def shift_conn_def)

section \<open>Node ids in the pipeline\<close>

text \<open>
  Every id is drawn from the counter, which only grows: the pool of a run never holds two
  nodes with the same id, whatever value the counter starts from.
\<close>

lemma ids_below_append:
  assumes "ids_below k pool" and "conn_id c = k"
  shows "ids_below (k + 1) (pool @ [c])"
  using assms by (fastforce simp: ids_below_def)

lemma build_connections_sides_ids:
  "ids_below c pool \<Longrightarrow>
   (case build_connections_sides sid ecs (pool, c) of (pool', c') \<Rightarrow> ids_below c' pool')"
proof (induction ecs arbitrary: pool c)
  case Nil
  then show ?case by simp
next
  case (Cons e ecs)
  obtain sd pt where e: "e = (sd, pt)" by (cases e)
  let ?node = "\<lparr>conn_id = c, conn_point = pt, conn_type = ''shape'', conn_shape_id = Some sid,
                conn_side = Some sd\<rparr>"
  have "ids_below (c + 1) (pool @ [?node])"
    using Cons.prems by (rule ids_below_append) simp
  from Cons.IH [OF this] show ?case
    by (simp add: e get_next_connection_id_def)
qed

lemma build_connections_shapes_ids:
  "ids_below c pool \<Longrightarrow>
   (case build_connections_shapes shapes (pool, c) of (pool', c') \<Rightarrow> ids_below c' pool')"
proof (induction shapes arbitrary: pool c)
  case Nil
  then show ?case by simp
next
  case (Cons s shapes)
  obtain sid cl x1 y1 w h cx cy ecs where s: "s = (sid, cl, x1, y1, w, h, cx, cy, ecs)"
    by (rule shape_cases)
  obtain p1 c1 where r: "build_connections_sides sid ecs (pool, c) = (p1, c1)"
    by (cases "build_connections_sides sid ecs (pool, c)")
  have "ids_below c1 p1"
    using build_connections_sides_ids [OF Cons.prems, of sid ecs] by (simp add: r)
  from Cons.IH [OF this] show ?case by (simp add: s r)
qed

lemma find_nearest_connection_ids:
  assumes "ids_below c pool"
  shows "case find_nearest_connection candidate pool t c of (best, pool', c') \<Rightarrow> ids_below c' pool'"
proof (cases "fst (nearest_scan candidate pool (None, t))")
  case None
  let ?new = "\<lparr>conn_id = c, conn_point = candidate, conn_type = ''arrow'',
                 conn_shape_id = None, conn_side = None\<rparr>"
  have "ids_below (c + 1) (pool @ [?new])"
    using assms by (rule ids_below_append) simp
  with None show ?thesis
    by (simp add: find_nearest_connection_def get_next_connection_id_def Let_def)
next
  case (Some b)
  with assms show ?thesis by (simp add: find_nearest_connection_def)
qed

lemma process_arrows_ids:
  "ids_below c pool \<Longrightarrow>
   (case process_arrows arrows (acc, pool, c) of (acc', pool', c') \<Rightarrow> ids_below c' pool')"
proof (induction arrows arbitrary: acc pool c)
  case Nil
  then show ?case by simp
next
  case (Cons b rest)
  show ?case
  proof (cases "arrow_candidates b")
    case None
    with Cons show ?thesis by simp
  next
    case (Some cands)
    obtain tail_cand tip_cand where cands: "cands = (tail_cand, tip_cand)" by (cases cands)
    obtain t p1 c1 where r1: "find_nearest_connection tail_cand pool 50 c = (t, p1, c1)"
      by (cases "find_nearest_connection tail_cand pool 50 c")
    obtain h p2 c2 where r2: "find_nearest_connection tip_cand p1 50 c1 = (h, p2, c2)"
      by (cases "find_nearest_connection tip_cand p1 50 c1")
    obtain cl ax1 ay1 ax2 ay2 where b: "b = (cl, ax1, ay1, ax2, ay2)" by (cases b)
    have "ids_below c1 p1"
      using find_nearest_connection_ids [OF Cons.prems, of tail_cand 50] by (simp add: r1)
    then have "ids_below c2 p2"
      using find_nearest_connection_ids [of c1 p1 tip_cand 50] by (simp add: r2)
    from Cons.IH [OF this] show ?thesis
      using Some by (simp add: cands r1 r2 b)
  qed
qed

lemma main_reconstruct_distinct_ids:
  assumes "main_reconstruct results counter = (shape_positions, pool, arrows, counter')"
  shows "distinct (map conn_id pool)"
proof -
  obtain pool0 c1 where p0: "build_connections_pool (draw_shapes results) counter = (pool0, c1)"
    by (cases "build_connections_pool (draw_shapes results) counter")
  obtain ar pl c2 where pa: "process_arrows (arrow_detections_of results) ([], pool0, c1) = (ar, pl, c2)"
    by (cases "process_arrows (arrow_detections_of results) ([], pool0, c1)")
  have "ids_below counter []" by (simp add: ids_below_def)
  from build_connections_shapes_ids [OF this, of "draw_shapes results"]
  have "ids_below c1 pool0" using p0 by (simp add: build_connections_pool_def)
  from process_arrows_ids [OF this, of "arrow_detections_of results" "[]"]
  have "ids_below c2 pl" by (simp add: pa)
  moreover from assms have "pool = pl"
    by (simp add: main_reconstruct_def p0 process_arrow_detections_def pa)
  ultimately show ?thesis by (simp add: ids_below_def)
qed

end
